theory Spec2Isabelle
  imports Main
begin

section \<open>Ordered maps (\<open>std::map\<close>)\<close>

text \<open>
  Both indices of \<open>TimedEventQueue<T>\<close> are \<open>std::map\<close>s: \<open>_ts2Val\<close> from
  \<open>TIMESTAMP\<close> to \<open>T\<close> and \<open>_val2Ts\<close> from \<open>T\<close> to \<open>TIMESTAMP\<close>. An ordered map
  is modelled by the list of its entries in iteration order, so that
  \<open>begin()\<close> is the head of the list. The container keeps its keys strictly
  ascending (predicate \<open>ordered\<close>); \<open>find\<close> is \<open>map_of\<close>.
\<close>

definition ordered :: "('k::linorder \<times> 'a) list \<Rightarrow> bool" where
  "ordered m = sorted_wrt (<) (map fst m)"

abbreviation keys :: "('k \<times> 'a) list \<Rightarrow> 'k set" where
  "keys m \<equiv> fst ` set m"

text \<open>
  \<open>emplace(k, a)\<close> and \<open>insert(node)\<close>: walk to the position of the key;
  an entry with an equal key blocks the insertion and the map is left as it is.
\<close>

fun emplace :: "'k::linorder \<Rightarrow> 'a \<Rightarrow> ('k \<times> 'a) list \<Rightarrow> ('k \<times> 'a) list" where
  "emplace k a [] = [(k, a)]"
| "emplace k a ((k', a') # m) =
     (if k < k' then (k, a) # (k', a') # m
      else if k = k' then (k', a') # m
      else (k', a') # emplace k a m)"

text \<open>\<open>erase(key)\<close>, and \<open>erase(find(key))\<close>: the entries with that key go.\<close>

fun erase :: "'k \<Rightarrow> ('k \<times> 'a) list \<Rightarrow> ('k \<times> 'a) list" where
  "erase k [] = []"
| "erase k ((k', a') # m) = (if k = k' then erase k m else (k', a') # erase k m)"

text \<open>\<open>itr->second = a\<close> for \<open>itr = find(k)\<close>: the mapped value is overwritten in place.\<close>

fun assign :: "'k \<Rightarrow> 'a \<Rightarrow> ('k \<times> 'a) list \<Rightarrow> ('k \<times> 'a) list" where
  "assign k a [] = []"
| "assign k a ((k', a') # m) = (if k = k' then (k', a) # m else (k', a') # assign k a m)"

section \<open>The queue\<close>

text \<open>
  One call of the pure virtual handler \<open>onTimestampExpire(timestamp, value)\<close>, as
  the worker thread makes it: the two arguments, together with the contents of
  the two indices at the moment of the call.
\<close>

record ('t, 'v) expiry =
  exp_ts :: 't
  exp_val :: 'v
  live_ts2Val :: "('t \<times> 'v) list"
  live_val2Ts :: "('v \<times> 't) list"

text \<open>
  The data members of the class. \<open>joinable\<close> is \<open>_thread.joinable()\<close>,
  \<open>notified\<close> counts the calls of \<open>_cv.notify_one()\<close>, and \<open>fired\<close> is the
  sequence of handler calls made so far.
\<close>

record ('t, 'v) queue =
  ts2Val :: "('t \<times> 'v) list"
  val2Ts :: "('v \<times> 't) list"
  exit_flag :: bool
  joinable :: bool
  notified :: nat
  fired :: "('t, 'v) expiry list"

text \<open>
  Undefined behaviour of the C++ program is a fault of the model:
  \<open>EmptyNodeHandle\<close> is \<open>nodeHandler.key() = ...\<close> on the empty node handle that
  \<open>extract\<close> returns for a missing key, and \<open>DerefEnd\<close> is \<open>_ts2Val.begin()->first\<close>
  on an empty map.
\<close>

datatype fault = EmptyNodeHandle | DerefEnd

definition notify_one :: "('t, 'v) queue \<Rightarrow> ('t, 'v) queue" where
  "notify_one s = s\<lparr>notified := Suc (notified s)\<rparr>"

definition addEvent ::
  "'t::linorder \<Rightarrow> 'v::linorder \<Rightarrow> ('t, 'v) queue \<Rightarrow> ('t, 'v) queue" where
  "addEvent timestamp val s =
     notify_one (s\<lparr>ts2Val := emplace timestamp val (ts2Val s),
                   val2Ts := emplace val timestamp (val2Ts s)\<rparr>)"

definition removeEvent_value :: "'v \<Rightarrow> ('t, 'v) queue \<Rightarrow> ('t, 'v) queue" where
  "removeEvent_value val s =
     (case map_of (val2Ts s) val of
        None \<Rightarrow> s
      | Some ts \<Rightarrow> s\<lparr>ts2Val := erase ts (ts2Val s), val2Ts := erase val (val2Ts s)\<rparr>)"

definition removeEvent_timestamp :: "'t \<Rightarrow> ('t, 'v) queue \<Rightarrow> ('t, 'v) queue" where
  "removeEvent_timestamp timestamp s =
     (case map_of (ts2Val s) timestamp of
        None \<Rightarrow> s
      | Some v \<Rightarrow> s\<lparr>val2Ts := erase v (val2Ts s), ts2Val := erase timestamp (ts2Val s)\<rparr>)"

definition updateValue ::
  "'t \<Rightarrow> 'v::linorder \<Rightarrow> ('t, 'v) queue \<Rightarrow> fault + ('t, 'v) queue" where
  "updateValue timestamp val s =
     (case map_of (ts2Val s) timestamp of
        None \<Rightarrow> Inr (notify_one s)
      | Some old \<Rightarrow>
          (case map_of (val2Ts s) old of
             None \<Rightarrow> Inl EmptyNodeHandle
           | Some ts \<Rightarrow>
               Inr (notify_one
                 (s\<lparr>val2Ts := emplace val ts (erase old (val2Ts s)),
                    ts2Val := assign timestamp val (ts2Val s)\<rparr>))))"

definition updateTimestamp ::
  "'t::linorder \<Rightarrow> 'v \<Rightarrow> ('t, 'v) queue \<Rightarrow> fault + ('t, 'v) queue" where
  "updateTimestamp timestamp val s =
     (case map_of (val2Ts s) val of
        None \<Rightarrow> Inr (notify_one s)
      | Some old \<Rightarrow>
          (case map_of (ts2Val s) old of
             None \<Rightarrow> Inl EmptyNodeHandle
           | Some v \<Rightarrow>
               Inr (notify_one
                 (s\<lparr>ts2Val := emplace timestamp v (erase old (ts2Val s)),
                    val2Ts := assign val timestamp (val2Ts s)\<rparr>))))"

text \<open>
  \<open>stop()\<close>. With \<open>_exit\<close> set the worker leaves \<open>run()\<close> the next time it
  tests the flag, at the head of the outer loop or right after \<open>wait_until\<close>,
  without touching the indices; \<open>join()\<close> returns then, and the thread is
  joinable no more.
\<close>

definition stop :: "('t, 'v) queue \<Rightarrow> ('t, 'v) queue" where
  "stop s =
     (if joinable s then (notify_one (s\<lparr>exit_flag := True\<rparr>))\<lparr>joinable := False\<rparr>
      else s)"

text \<open>
  The constructor. \<open>CENTENNIAL\<close> reads the clock, so the sentinel's timestamp is
  a parameter, and so is the value \<open>T()\<close> of the element type.
\<close>

definition construct :: "'t::linorder \<Rightarrow> 'v::linorder \<Rightarrow> ('t, 'v) queue" where
  "construct dummy_timestamp dflt =
     (addEvent dummy_timestamp dflt
        \<lparr>ts2Val = [], val2Ts = [], exit_flag = False, joinable = False,
         notified = 0, fired = []\<rparr>)\<lparr>joinable := True\<rparr>"

subsection \<open>The worker thread\<close>

text \<open>
  \<open>onTimestampExpire\<close> is pure virtual. Whatever a subclass does in it, it
  cannot reach the two indices, which are private, and it runs with the mutex
  held; so a call is modelled by its record in \<open>fired\<close>, and the handler is
  taken to return.
\<close>

definition onTimestampExpire :: "'t \<Rightarrow> 'v \<Rightarrow> ('t, 'v) queue \<Rightarrow> ('t, 'v) queue" where
  "onTimestampExpire timestamp val s =
     s\<lparr>fired := fired s @
         [\<lparr>exp_ts = timestamp, exp_val = val,
           live_ts2Val = ts2Val s, live_val2Ts = val2Ts s\<rparr>]\<rparr>"

text \<open>The body of the inner \<open>while\<close> of \<open>run()\<close>, for the first entry \<open>(t, v)\<close>.\<close>

definition fire_front :: "'t \<Rightarrow> 'v \<Rightarrow> ('t, 'v) queue \<Rightarrow> ('t, 'v) queue" where
  "fire_front t v s =
     (let s1 = onTimestampExpire t v s;
          s2 = s1\<lparr>val2Ts := erase v (val2Ts s1)\<rparr>
      in s2\<lparr>ts2Val := tl (ts2Val s2)\<rparr>)"

function drain :: "'t::linorder \<Rightarrow> ('t, 'v) queue \<Rightarrow> fault + ('t, 'v) queue" where
  "drain current_time s =
     (case ts2Val s of
        [] \<Rightarrow> Inl DerefEnd
      | (t, v) # rest \<Rightarrow>
          if t \<le> current_time then drain current_time (fire_front t v s) else Inr s)"
  by pat_completeness auto
termination
  by (relation "measure (\<lambda>(now, s). length (ts2Val s))")
     (auto simp: fire_front_def onTimestampExpire_def)

declare drain.simps [simp del]

text \<open>
  One turn of the outer loop of \<open>run()\<close>. Before it blocks, the worker reads the
  deadline \<open>_ts2Val.begin()->first\<close> for \<open>wait_until\<close>; when it wakes at
  \<open>current_time\<close> it leaves if \<open>_exit\<close> is set and drains otherwise.
\<close>

definition wait_deadline :: "('t, 'v) queue \<Rightarrow> fault + 't" where
  "wait_deadline s = (case ts2Val s of [] \<Rightarrow> Inl DerefEnd | (t, v) # rest \<Rightarrow> Inr t)"

definition wake :: "'t::linorder \<Rightarrow> ('t, 'v) queue \<Rightarrow> fault + ('t, 'v) queue" where
  "wake current_time s = (if exit_flag s then Inr s else drain current_time s)"

text \<open>The \<open>(timestamp, value)\<close> arguments of the handler calls made so far, in order.\<close>

definition delivered :: "('t, 'v) queue \<Rightarrow> ('t \<times> 'v) list" where
  "delivered s = map (\<lambda>e. (exp_ts e, exp_val e)) (fired s)"

subsection \<open>Sequences of calls\<close>

datatype ('t, 'v) call =
    AddEvent 't 'v
  | RemoveValue 'v
  | RemoveTimestamp 't
  | UpdateValue 't 'v
  | UpdateTimestamp 't 'v

fun apply_call ::
  "('t::linorder, 'v::linorder) call \<Rightarrow> ('t, 'v) queue \<Rightarrow> fault + ('t, 'v) queue" where
  "apply_call (AddEvent t v) s = Inr (addEvent t v s)"
| "apply_call (RemoveValue v) s = Inr (removeEvent_value v s)"
| "apply_call (RemoveTimestamp t) s = Inr (removeEvent_timestamp t s)"
| "apply_call (UpdateValue t v) s = updateValue t v s"
| "apply_call (UpdateTimestamp t v) s = updateTimestamp t v s"

fun run_calls ::
  "('t::linorder, 'v::linorder) call list \<Rightarrow> ('t, 'v) queue \<Rightarrow> fault + ('t, 'v) queue" where
  "run_calls [] s = Inr s"
| "run_calls (c # cs) s =
     (case apply_call c s of Inl e \<Rightarrow> Inl e | Inr s' \<Rightarrow> run_calls cs s')"

text \<open>
  The timestamps and the values that a call submits for storing: both arguments
  of \<open>addEvent\<close>, the new value of \<open>updateValue\<close>, the new timestamp of
  \<open>updateTimestamp\<close>. The other arguments select an event that is stored already.
\<close>

fun new_timestamps :: "('t, 'v) call \<Rightarrow> 't list" where
  "new_timestamps (AddEvent t v) = [t]"
| "new_timestamps (UpdateTimestamp t v) = [t]"
| "new_timestamps _ = []"

fun new_values :: "('t, 'v) call \<Rightarrow> 'v list" where
  "new_values (AddEvent t v) = [v]"
| "new_values (UpdateValue t v) = [v]"
| "new_values _ = []"

text \<open>Calls interleaved with the turns of the worker thread, all under the one mutex.\<close>

datatype ('t, 'v) step = Call "('t, 'v) call" | Arm | Wake 't

fun apply_step ::
  "('t::linorder, 'v::linorder) step \<Rightarrow> ('t, 'v) queue \<Rightarrow> fault + ('t, 'v) queue" where
  "apply_step (Call c) s = apply_call c s"
| "apply_step Arm s = (case wait_deadline s of Inl e \<Rightarrow> Inl e | Inr d \<Rightarrow> Inr s)"
| "apply_step (Wake now) s = wake now s"

fun run_steps ::
  "('t::linorder, 'v::linorder) step list \<Rightarrow> ('t, 'v) queue \<Rightarrow> fault + ('t, 'v) queue" where
  "run_steps [] s = Inr s"
| "run_steps (x # xs) s =
     (case apply_step x s of Inl e \<Rightarrow> Inl e | Inr s' \<Rightarrow> run_steps xs s')"

subsection \<open>Invariants\<close>

text \<open>Both containers keep their keys strictly ascending.\<close>

definition well_formed :: "('t::linorder, 'v::linorder) queue \<Rightarrow> bool" where
  "well_formed s = (ordered (ts2Val s) \<and> ordered (val2Ts s))"

text \<open>
  The two indices describe the same set of pairs: every entry of one has the
  mirrored entry in the other.
\<close>

definition bijective :: "('t, 'v) queue \<Rightarrow> bool" where
  "bijective s =
     ((\<forall>(t, v) \<in> set (ts2Val s). map_of (val2Ts s) v = Some t) \<and>
      (\<forall>(v, t) \<in> set (val2Ts s). map_of (ts2Val s) t = Some v))"

text \<open>The sentinel of the constructor is stored, in both indices.\<close>

definition sentinel_present :: "'t \<Rightarrow> 'v \<Rightarrow> ('t, 'v) queue \<Rightarrow> bool" where
  "sentinel_present dummy_timestamp dflt s =
     (map_of (ts2Val s) dummy_timestamp = Some dflt \<and>
      map_of (val2Ts s) dflt = Some dummy_timestamp)"

text \<open>
  A step that leaves the sentinel alone: a call none of whose arguments is the
  sentinel's timestamp or the sentinel's value, or a turn of the worker that
  wakes before the sentinel's timestamp.
\<close>

fun avoids_sentinel :: "'t::linorder \<Rightarrow> 'v \<Rightarrow> ('t, 'v) step \<Rightarrow> bool" where
  "avoids_sentinel dummy_timestamp dflt (Call (AddEvent t v)) = (t \<noteq> dummy_timestamp \<and> v \<noteq> dflt)"
| "avoids_sentinel dummy_timestamp dflt (Call (RemoveValue v)) = (v \<noteq> dflt)"
| "avoids_sentinel dummy_timestamp dflt (Call (RemoveTimestamp t)) = (t \<noteq> dummy_timestamp)"
| "avoids_sentinel dummy_timestamp dflt (Call (UpdateValue t v)) = (t \<noteq> dummy_timestamp \<and> v \<noteq> dflt)"
| "avoids_sentinel dummy_timestamp dflt (Call (UpdateTimestamp t v)) =
     (t \<noteq> dummy_timestamp \<and> v \<noteq> dflt)"
| "avoids_sentinel dummy_timestamp dflt Arm = True"
| "avoids_sentinel dummy_timestamp dflt (Wake now) = (now < dummy_timestamp)"

text \<open>The calls among the steps, in order.\<close>

fun calls_of :: "('t, 'v) step list \<Rightarrow> ('t, 'v) call list" where
  "calls_of [] = []"
| "calls_of (Call c # xs) = c # calls_of xs"
| "calls_of (Arm # xs) = calls_of xs"
| "calls_of (Wake now # xs) = calls_of xs"

text \<open>
  The sentinel is stored in both indices, and it is the only entry with its
  timestamp and the only entry with its value.
\<close>

definition sentinel_kept :: "'t \<Rightarrow> 'v \<Rightarrow> ('t, 'v) queue \<Rightarrow> bool" where
  "sentinel_kept dummy_timestamp dflt s =
     ((dummy_timestamp, dflt) \<in> set (ts2Val s) \<and> (dflt, dummy_timestamp) \<in> set (val2Ts s) \<and>
      (\<forall>(t, v) \<in> set (ts2Val s). (t = dummy_timestamp) = (v = dflt)) \<and>
      (\<forall>(v, t) \<in> set (val2Ts s). (t = dummy_timestamp) = (v = dflt)))"

section \<open>Facts about ordered maps\<close>

lemma in_keysI: "(k, a) \<in> set m \<Longrightarrow> k \<in> keys m"
  by (metis fst_conv image_eqI)

lemma keys_emplace: "keys (emplace k a m) = insert k (keys m)"
  by (induction m) (auto simp: in_keysI split: if_splits)

lemma ordered_Cons: "ordered ((k, a) # m) = ((\<forall>p \<in> set m. k < fst p) \<and> ordered m)"
  by (auto simp: ordered_def)

lemma set_emplace: "set (emplace k a m) \<subseteq> insert (k, a) (set m)"
  by (induction m) (auto split: if_splits)

lemma ordered_emplace: "ordered m \<Longrightarrow> ordered (emplace k a m)"
proof (induction m)
  case Nil
  show ?case by (simp add: ordered_def)
next
  case (Cons p m)
  obtain k' a' where p: "p = (k', a')" by (cases p)
  from Cons.prems have lt: "\<forall>q \<in> set m. k' < fst q" and om: "ordered m"
    by (simp_all add: p ordered_Cons)
  have "\<forall>q \<in> set (emplace k a m). k' < fst q" if "k' < k"
    using set_emplace [of k a m] lt that by auto
  with lt om Cons.IH show ?case
    by (auto simp: p ordered_Cons)
qed

lemma set_erase: "p \<in> set (erase k m) \<longleftrightarrow> p \<in> set m \<and> fst p \<noteq> k"
  by (induction m) (auto split: if_splits)

lemma ordered_erase: "ordered m \<Longrightarrow> ordered (erase k m)"
  by (induction m) (auto simp: ordered_Cons set_erase)

lemma keys_assign: "map fst (assign k a m) = map fst m"
  by (induction m) auto

lemma ordered_assign: "ordered m \<Longrightarrow> ordered (assign k a m)"
  by (simp add: ordered_def keys_assign)

lemma map_of_erase: "map_of (erase k m) = (map_of m)(k := None)"
  by (induction m) (auto simp: fun_eq_iff)

lemma map_of_assign:
  "map_of (assign k a m) = (if k \<in> keys m then (map_of m)(k \<mapsto> a) else map_of m)"
  by (induction m) (auto simp: fun_eq_iff in_keysI)

lemma map_of_emplace:
  "ordered m \<Longrightarrow>
   map_of (emplace k a m) = (if k \<in> keys m then map_of m else (map_of m)(k \<mapsto> a))"
  by (induction m) (fastforce simp: fun_eq_iff ordered_Cons)+

lemma emplace_present: "ordered m \<Longrightarrow> k \<in> keys m \<Longrightarrow> emplace k a m = m"
  by (induction m) (fastforce simp: ordered_Cons)+

lemma ordered_distinct: "ordered m \<Longrightarrow> distinct (map fst m)"
  by (simp add: ordered_def strict_sorted_iff)

lemma ordered_map_of: "ordered m \<Longrightarrow> (map_of m k = Some a) = ((k, a) \<in> set m)"
  by (simp add: ordered_distinct)

lemma keys_dom: "keys m = dom (map_of m)"
  by (simp add: dom_map_of_conv_image_fst)


section \<open>Insertion\<close>

text \<open>
  C10. \<open>addEvent\<close> never overwrites a binding. When the timestamp is already a
  key of \<open>_ts2Val\<close> that index is left as it is, and when the value is already
  a key of \<open>_val2Ts\<close> that index is left as it is; each half of the insertion is
  decided on its own, so the half whose key is free still goes in.
\<close>

theorem addEvent_never_overwrites:
  assumes "well_formed s"
  shows "(timestamp \<in> keys (ts2Val s) \<longrightarrow> ts2Val (addEvent timestamp val s) = ts2Val s) \<and>
         (val \<in> keys (val2Ts s) \<longrightarrow> val2Ts (addEvent timestamp val s) = val2Ts s) \<and>
         (timestamp \<notin> keys (ts2Val s) \<longrightarrow>
            map_of (ts2Val (addEvent timestamp val s)) timestamp = Some val) \<and>
         (val \<notin> keys (val2Ts s) \<longrightarrow>
            map_of (val2Ts (addEvent timestamp val s)) val = Some timestamp)"
  using assms
  by (simp add: addEvent_def notify_one_def well_formed_def emplace_present map_of_emplace)

theorem addEvent_never_overwrites_witness:
  "well_formed (construct (100::nat) (0::nat)) \<and>
   100 \<in> keys (ts2Val (construct (100::nat) (0::nat))) \<and>
   7 \<notin> keys (val2Ts (construct (100::nat) (0::nat))) \<and>
   ts2Val (addEvent 100 7 (construct (100::nat) (0::nat))) = [(100, 0)] \<and>
   map_of (val2Ts (addEvent 100 7 (construct (100::nat) (0::nat)))) 7 = Some 100 \<and>
   5 \<notin> keys (ts2Val (construct (100::nat) (0::nat))) \<and>
   0 \<in> keys (val2Ts (construct (100::nat) (0::nat))) \<and>
   val2Ts (addEvent 5 0 (construct (100::nat) (0::nat))) = [(0, 100)] \<and>
   map_of (ts2Val (addEvent 5 0 (construct (100::nat) (0::nat)))) 5 = Some 0"
proof -
  have wf: "well_formed (construct (100::nat) (0::nat))"
    by (simp add: well_formed_def ordered_def construct_def addEvent_def notify_one_def)
  have st: "ts2Val (construct (100::nat) (0::nat)) = [(100, 0)]"
           "val2Ts (construct (100::nat) (0::nat)) = [(0, 100)]"
    by (simp_all add: construct_def addEvent_def notify_one_def)
  from addEvent_never_overwrites [OF wf, of 100 7] addEvent_never_overwrites [OF wf, of 5 0]
    wf st show ?thesis
    by simp
qed

section \<open>Waking the worker\<close>

lemma addEvent_notifies: "notified (addEvent timestamp val s) = Suc (notified s)"
  by (simp add: addEvent_def notify_one_def)

lemma updateValue_notifies:
  "updateValue timestamp val s = Inr s' \<Longrightarrow> notified s' = Suc (notified s)"
  by (auto simp: updateValue_def notify_one_def split: option.splits)

lemma updateTimestamp_notifies:
  "updateTimestamp timestamp val s = Inr s' \<Longrightarrow> notified s' = Suc (notified s)"
  by (auto simp: updateTimestamp_def notify_one_def split: option.splits)

text \<open>
  C4. Every mutation is to wake the wait condition. \<open>addEvent\<close>, \<open>updateValue\<close>
  and \<open>updateTimestamp\<close> call \<open>_cv.notify_one()\<close> on every path (the three
  lemmas above). Neither overload of \<open>removeEvent\<close> does: whatever the state and
  the argument, the number of notifications is the same before and after the
  call.
\<close>

theorem removeEvent_never_notifies:
  "notified (removeEvent_value val s) = notified s \<and>
   notified (removeEvent_timestamp timestamp s) = notified s"
  by (simp add: removeEvent_value_def removeEvent_timestamp_def split: option.splits)

section \<open>Removal\<close>

text \<open>
  C8. \<open>removeEvent\<close> is total and idempotent, in both overloads: it returns a
  state for every state and argument, a key that is absent leaves the state as
  it is, and a second call with the same argument changes nothing.
\<close>

theorem removeEvent_idempotent:
  "(\<exists>s'. apply_call (RemoveValue val) s = Inr s') \<and>
   (\<exists>s'. apply_call (RemoveTimestamp timestamp) s = Inr s') \<and>
   (val \<notin> keys (val2Ts s) \<longrightarrow> apply_call (RemoveValue val) s = Inr s) \<and>
   (timestamp \<notin> keys (ts2Val s) \<longrightarrow> apply_call (RemoveTimestamp timestamp) s = Inr s) \<and>
   run_calls [RemoveValue val, RemoveValue val] s = run_calls [RemoveValue val] s \<and>
   run_calls [RemoveTimestamp timestamp, RemoveTimestamp timestamp] s =
     run_calls [RemoveTimestamp timestamp] s"
proof -
  have a: "val \<notin> keys (val2Ts s) \<Longrightarrow> removeEvent_value val s = s"
    by (simp add: removeEvent_value_def keys_dom domIff)
  have b: "timestamp \<notin> keys (ts2Val s) \<Longrightarrow> removeEvent_timestamp timestamp s = s"
    by (simp add: removeEvent_timestamp_def keys_dom domIff)
  have c: "removeEvent_value val (removeEvent_value val s) = removeEvent_value val s"
    by (simp add: removeEvent_value_def map_of_erase split: option.splits)
  have d: "removeEvent_timestamp timestamp (removeEvent_timestamp timestamp s) =
           removeEvent_timestamp timestamp s"
    by (simp add: removeEvent_timestamp_def map_of_erase split: option.splits)
  from a b c d show ?thesis by simp
qed

theorem removeEvent_idempotent_witness:
  "5 \<notin> keys (val2Ts (construct (100::nat) (0::nat))) \<and>
   apply_call (RemoveValue 5) (construct (100::nat) (0::nat)) = Inr (construct 100 0) \<and>
   7 \<notin> keys (ts2Val (construct (100::nat) (0::nat))) \<and>
   apply_call (RemoveTimestamp 7) (construct (100::nat) (0::nat)) = Inr (construct 100 0)"
proof -
  have st: "ts2Val (construct (100::nat) (0::nat)) = [(100, 0)]"
           "val2Ts (construct (100::nat) (0::nat)) = [(0, 100)]"
    by (simp_all add: construct_def addEvent_def notify_one_def)
  from removeEvent_idempotent [of 5 "construct (100::nat) (0::nat)" 7] st show ?thesis
    by simp
qed

section \<open>Shutdown\<close>

text \<open>
  C9. \<open>stop()\<close> on a queue that is stopped already (its thread is no longer
  joinable) changes no data member, and so a second \<open>stop()\<close> after a first one
  changes nothing.
\<close>

theorem stop_idempotent:
  "(\<not> joinable s \<longrightarrow> stop s = s) \<and> stop (stop s) = stop s"
  by (simp add: stop_def notify_one_def)

theorem stop_idempotent_witness:
  "\<not> joinable (stop (construct (100::nat) (0::nat))) \<and>
   stop (stop (construct (100::nat) (0::nat))) = stop (construct 100 0)"
  using stop_idempotent [of "stop (construct (100::nat) (0::nat))"]
  by (simp add: stop_def notify_one_def)

section \<open>Updates\<close>

lemma bijective_iff:
  "well_formed s \<Longrightarrow>
   bijective s \<longleftrightarrow>
     (\<forall>t v. map_of (ts2Val s) t = Some v \<longleftrightarrow> map_of (val2Ts s) v = Some t)"
  unfolding bijective_def well_formed_def
  by (auto simp: ordered_map_of)

lemma keys_erase: "keys (erase k m) = keys m - {k}"
  by (simp add: keys_dom map_of_erase)

lemma updateValue_moves:
  assumes wf: "well_formed s" and bij: "bijective s"
    and old: "map_of (ts2Val s) timestamp = Some old"
    and free: "val \<notin> keys (val2Ts s) \<or> val = old"
  shows "\<exists>s'. updateValue timestamp val s = Inr s' \<and>
           map_of (ts2Val s') = (map_of (ts2Val s))(timestamp \<mapsto> val) \<and>
           map_of (val2Ts s') = ((map_of (val2Ts s))(old := None))(val \<mapsto> timestamp) \<and>
           map fst (ts2Val s') = map fst (ts2Val s) \<and>
           notified s' = Suc (notified s) \<and>
           well_formed s' \<and> bijective s'"
proof -
  let ?A = "ts2Val s" and ?V = "val2Ts s"
  from wf have oA: "ordered ?A" and oV: "ordered ?V"
    by (simp_all add: well_formed_def)
  from bij wf have B: "\<And>t v. map_of ?A t = Some v \<longleftrightarrow> map_of ?V v = Some t"
    by (simp add: bijective_iff)
  from old B have mirror: "map_of ?V old = Some timestamp" by simp
  define s' where "s' = notify_one (s\<lparr>val2Ts := emplace val timestamp (erase old ?V),
                                      ts2Val := assign timestamp val ?A\<rparr>)"
  have run: "updateValue timestamp val s = Inr s'"
    by (simp add: updateValue_def old mirror s'_def)
  have tk: "timestamp \<in> keys ?A"
    using old by (simp add: keys_dom domI)
  have mA: "map_of (ts2Val s') = (map_of ?A)(timestamp \<mapsto> val)"
    by (simp add: s'_def notify_one_def map_of_assign tk)
  have nk: "val \<notin> keys (erase old ?V)"
    using free by (auto simp: keys_erase)
  have mV: "map_of (val2Ts s') = ((map_of ?V)(old := None))(val \<mapsto> timestamp)"
    using nk by (simp add: s'_def notify_one_def map_of_emplace ordered_erase oV map_of_erase)
  have kA: "map fst (ts2Val s') = map fst ?A"
    by (simp add: s'_def notify_one_def keys_assign)
  have wf': "well_formed s'"
    by (simp add: well_formed_def s'_def notify_one_def ordered_assign ordered_emplace
        ordered_erase oA oV)
  have free': "map_of ?V val = None \<or> val = old"
    using free by (simp add: keys_dom domIff)
  have "map_of (ts2Val s') t = Some v \<longleftrightarrow> map_of (val2Ts s') v = Some t" for t v
  proof (cases "t = timestamp")
    case True
    show ?thesis
    proof (cases "v = val")
      case True
      with \<open>t = timestamp\<close> show ?thesis by (simp add: mA mV)
    next
      case False
      have "map_of ?V v = Some timestamp \<longleftrightarrow> v = old"
        using B [of timestamp v] old by auto
      with False \<open>t = timestamp\<close> show ?thesis by (auto simp: mA mV)
    qed
  next
    case False
    have "map_of ?V old \<noteq> Some t" using mirror False by simp
    moreover have "map_of ?V val \<noteq> Some t" using free' mirror False by auto
    ultimately show ?thesis
      using False B [of t v] by (auto simp: mA mV)
  qed
  then have "bijective s'" using wf' by (simp add: bijective_iff)
  with run mA mV kA wf' show ?thesis
    by (auto simp: s'_def notify_one_def)
qed


lemma updateTimestamp_moves:
  assumes wf: "well_formed s" and bij: "bijective s"
    and old: "map_of (val2Ts s) val = Some old"
    and free: "timestamp \<notin> keys (ts2Val s) \<or> timestamp = old"
  shows "\<exists>s'. updateTimestamp timestamp val s = Inr s' \<and>
           map_of (ts2Val s') = ((map_of (ts2Val s))(old := None))(timestamp \<mapsto> val) \<and>
           map_of (val2Ts s') = (map_of (val2Ts s))(val \<mapsto> timestamp) \<and>
           map fst (val2Ts s') = map fst (val2Ts s) \<and>
           notified s' = Suc (notified s) \<and>
           well_formed s' \<and> bijective s'"
proof -
  let ?A = "ts2Val s" and ?V = "val2Ts s"
  from wf have oA: "ordered ?A" and oV: "ordered ?V"
    by (simp_all add: well_formed_def)
  from bij wf have B: "\<And>t v. map_of ?A t = Some v \<longleftrightarrow> map_of ?V v = Some t"
    by (simp add: bijective_iff)
  from old B have mirror: "map_of ?A old = Some val" by simp
  define s' where "s' = notify_one (s\<lparr>ts2Val := emplace timestamp val (erase old ?A),
                                      val2Ts := assign val timestamp ?V\<rparr>)"
  have run: "updateTimestamp timestamp val s = Inr s'"
    by (simp add: updateTimestamp_def old mirror s'_def)
  have vk: "val \<in> keys ?V"
    using old by (simp add: keys_dom domI)
  have mV: "map_of (val2Ts s') = (map_of ?V)(val \<mapsto> timestamp)"
    by (simp add: s'_def notify_one_def map_of_assign vk)
  have nk: "timestamp \<notin> keys (erase old ?A)"
    using free by (auto simp: keys_erase)
  have mA: "map_of (ts2Val s') = ((map_of ?A)(old := None))(timestamp \<mapsto> val)"
    using nk by (simp add: s'_def notify_one_def map_of_emplace ordered_erase oA map_of_erase)
  have kV: "map fst (val2Ts s') = map fst ?V"
    by (simp add: s'_def notify_one_def keys_assign)
  have wf': "well_formed s'"
    by (simp add: well_formed_def s'_def notify_one_def ordered_assign ordered_emplace
        ordered_erase oA oV)
  have free': "map_of ?A timestamp = None \<or> timestamp = old"
    using free by (simp add: keys_dom domIff)
  have "map_of (ts2Val s') t = Some v \<longleftrightarrow> map_of (val2Ts s') v = Some t" for t v
  proof (cases "v = val")
    case True
    show ?thesis
    proof (cases "t = timestamp")
      case True
      with \<open>v = val\<close> show ?thesis by (simp add: mA mV)
    next
      case False
      have "map_of ?A t = Some val \<longleftrightarrow> t = old"
        using B [of t val] old by auto
      with False \<open>v = val\<close> show ?thesis by (auto simp: mA mV)
    qed
  next
    case False
    have "map_of ?A old \<noteq> Some v" using mirror False by simp
    moreover have "map_of ?A timestamp \<noteq> Some v" using free' mirror False by auto
    ultimately show ?thesis
      using False B [of t v] by (auto simp: mA mV)
  qed
  then have "bijective s'" using wf' by (simp add: bijective_iff)
  with run mA mV kV wf' show ?thesis
    by (auto simp: s'_def notify_one_def)
qed

text \<open>
  C7. \<open>updateValue(timestamp, newValue)\<close> on a queue whose indices are in
  bijection. With no event at that timestamp the indices are left as they are
  (the call only notifies). With an event \<open>(timestamp, old)\<close> stored, and
  \<open>newValue\<close> not the value of another stored event, the call succeeds,
  \<open>_ts2Val\<close> maps the timestamp to the new value and keeps its keys,
  \<open>_val2Ts\<close> loses \<open>old\<close> and maps the new value to the timestamp, and the
  indices are in bijection again.
\<close>

theorem updateValue_changes_value:
  assumes "well_formed s" and "bijective s"
  shows "(timestamp \<notin> keys (ts2Val s) \<longrightarrow> updateValue timestamp val s = Inr (notify_one s)) \<and>
         (\<forall>old. map_of (ts2Val s) timestamp = Some old \<and>
                (val \<notin> keys (val2Ts s) \<or> val = old) \<longrightarrow>
            (\<exists>s'. updateValue timestamp val s = Inr s' \<and>
               map_of (ts2Val s') = (map_of (ts2Val s))(timestamp \<mapsto> val) \<and>
               map_of (val2Ts s') = ((map_of (val2Ts s))(old := None))(val \<mapsto> timestamp) \<and>
               map fst (ts2Val s') = map fst (ts2Val s) \<and>
               well_formed s' \<and> bijective s'))"
proof -
  have "updateValue timestamp val s = Inr (notify_one s)" if "timestamp \<notin> keys (ts2Val s)"
    using that by (simp add: updateValue_def keys_dom domIff)
  moreover have "\<exists>s'. updateValue timestamp val s = Inr s' \<and>
               map_of (ts2Val s') = (map_of (ts2Val s))(timestamp \<mapsto> val) \<and>
               map_of (val2Ts s') = ((map_of (val2Ts s))(old := None))(val \<mapsto> timestamp) \<and>
               map fst (ts2Val s') = map fst (ts2Val s) \<and>
               well_formed s' \<and> bijective s'"
    if "map_of (ts2Val s) timestamp = Some old" "val \<notin> keys (val2Ts s) \<or> val = old" for old
    using updateValue_moves [OF assms that] by blast
  ultimately show ?thesis by blast
qed

theorem updateValue_changes_value_witness:
  "well_formed (addEvent 4 4 (construct (100::nat) (0::nat))) \<and>
   bijective (addEvent 4 4 (construct (100::nat) (0::nat))) \<and>
   map_of (ts2Val (addEvent 4 4 (construct (100::nat) (0::nat)))) 4 = Some 4 \<and>
   5 \<notin> keys (val2Ts (addEvent 4 4 (construct (100::nat) (0::nat)))) \<and>
   updateValue 4 5 (addEvent 4 4 (construct (100::nat) (0::nat))) =
     Inr \<lparr>ts2Val = [(4, 5), (100, 0)], val2Ts = [(0, 100), (5, 4)], exit_flag = False,
          joinable = True, notified = 3, fired = []\<rparr> \<and>
   bijective \<lparr>ts2Val = [(4, 5), (100, 0)], val2Ts = [(0, 100), (5, 4)], exit_flag = False,
          joinable = True, notified = 3, fired = ([] :: (nat, nat) expiry list)\<rparr>"
proof -
  let ?s = "addEvent 4 4 (construct (100::nat) (0::nat))"
  have st: "?s = \<lparr>ts2Val = [(4, 4), (100, 0)], val2Ts = [(0, 100), (4, 4)], exit_flag = False,
          joinable = True, notified = 2, fired = []\<rparr>"
    by (simp add: construct_def addEvent_def notify_one_def)
  have wf: "well_formed ?s"
    unfolding st by (simp add: well_formed_def ordered_def)
  have bij: "bijective ?s"
    unfolding st by (simp add: bijective_def)
  have old: "map_of (ts2Val ?s) 4 = Some 4" "5 \<notin> keys (val2Ts ?s)"
    unfolding st by simp_all
  have ev: "updateValue 4 5 ?s =
     Inr \<lparr>ts2Val = [(4, 5), (100, 0)], val2Ts = [(0, 100), (5, 4)], exit_flag = False,
          joinable = True, notified = 3, fired = []\<rparr>"
    unfolding st by (simp add: updateValue_def notify_one_def)
  from updateValue_changes_value [OF wf bij, of 4 5] old ev wf bij show ?thesis
    by auto
qed

theorem updateValue_duplicate_value_counterexample:
  "well_formed (addEvent 2 20 (addEvent 1 10 (construct (100::nat) (0::nat)))) \<and>
   bijective (addEvent 2 20 (addEvent 1 10 (construct (100::nat) (0::nat)))) \<and>
   map_of (ts2Val (addEvent 2 20 (addEvent 1 10 (construct (100::nat) (0::nat))))) 1 = Some 10 \<and>
   updateValue 1 20 (addEvent 2 20 (addEvent 1 10 (construct (100::nat) (0::nat)))) =
     Inr \<lparr>ts2Val = [(1, 20), (2, 20), (100, 0)], val2Ts = [(0, 100), (20, 2)],
          exit_flag = False, joinable = True, notified = 4, fired = []\<rparr> \<and>
   \<not> bijective \<lparr>ts2Val = [(1, 20), (2, 20), (100, 0)], val2Ts = [(0, 100), (20, 2)],
          exit_flag = False, joinable = True, notified = 4,
          fired = ([] :: (nat, nat) expiry list)\<rparr>"
  by (simp add: construct_def addEvent_def notify_one_def updateValue_def bijective_def
      well_formed_def ordered_def)

text \<open>
  C6. \<open>updateTimestamp(newTimestamp, value)\<close> on a queue whose indices are in
  bijection. With no event of that value the indices are left as they are (the
  call only notifies). With an event \<open>(old, value)\<close> stored, and \<open>newTimestamp\<close>
  not the timestamp of another stored event, the call succeeds, \<open>_ts2Val\<close> loses
  \<open>old\<close> and holds the value at the new timestamp, \<open>_val2Ts\<close> maps the value to
  the new timestamp and keeps its keys, and the indices are in bijection again.
\<close>

theorem updateTimestamp_moves_event:
  assumes "well_formed s" and "bijective s"
  shows "(val \<notin> keys (val2Ts s) \<longrightarrow> updateTimestamp timestamp val s = Inr (notify_one s)) \<and>
         (\<forall>old. map_of (val2Ts s) val = Some old \<and>
                (timestamp \<notin> keys (ts2Val s) \<or> timestamp = old) \<longrightarrow>
            (\<exists>s'. updateTimestamp timestamp val s = Inr s' \<and>
               map_of (ts2Val s') = ((map_of (ts2Val s))(old := None))(timestamp \<mapsto> val) \<and>
               map_of (val2Ts s') = (map_of (val2Ts s))(val \<mapsto> timestamp) \<and>
               map fst (val2Ts s') = map fst (val2Ts s) \<and>
               well_formed s' \<and> bijective s'))"
proof -
  have "updateTimestamp timestamp val s = Inr (notify_one s)" if "val \<notin> keys (val2Ts s)"
    using that by (simp add: updateTimestamp_def keys_dom domIff)
  moreover have "\<exists>s'. updateTimestamp timestamp val s = Inr s' \<and>
               map_of (ts2Val s') = ((map_of (ts2Val s))(old := None))(timestamp \<mapsto> val) \<and>
               map_of (val2Ts s') = (map_of (val2Ts s))(val \<mapsto> timestamp) \<and>
               map fst (val2Ts s') = map fst (val2Ts s) \<and>
               well_formed s' \<and> bijective s'"
    if "map_of (val2Ts s) val = Some old" "timestamp \<notin> keys (ts2Val s) \<or> timestamp = old"
    for old
    using updateTimestamp_moves [OF assms that] by blast
  ultimately show ?thesis by blast
qed

theorem updateTimestamp_moves_event_witness:
  "well_formed (addEvent 3 1 (construct (100::nat) (0::nat))) \<and>
   bijective (addEvent 3 1 (construct (100::nat) (0::nat))) \<and>
   map_of (val2Ts (addEvent 3 1 (construct (100::nat) (0::nat)))) 1 = Some 3 \<and>
   10 \<notin> keys (ts2Val (addEvent 3 1 (construct (100::nat) (0::nat)))) \<and>
   updateTimestamp 10 1 (addEvent 3 1 (construct (100::nat) (0::nat))) =
     Inr \<lparr>ts2Val = [(10, 1), (100, 0)], val2Ts = [(0, 100), (1, 10)], exit_flag = False,
          joinable = True, notified = 3, fired = []\<rparr> \<and>
   bijective \<lparr>ts2Val = [(10, 1), (100, 0)], val2Ts = [(0, 100), (1, 10)], exit_flag = False,
          joinable = True, notified = 3, fired = ([] :: (nat, nat) expiry list)\<rparr>"
proof -
  let ?s = "addEvent 3 1 (construct (100::nat) (0::nat))"
  have st: "?s = \<lparr>ts2Val = [(3, 1), (100, 0)], val2Ts = [(0, 100), (1, 3)], exit_flag = False,
          joinable = True, notified = 2, fired = []\<rparr>"
    by (simp add: construct_def addEvent_def notify_one_def)
  have wf: "well_formed ?s"
    unfolding st by (simp add: well_formed_def ordered_def)
  have bij: "bijective ?s"
    unfolding st by (simp add: bijective_def)
  have old: "map_of (val2Ts ?s) 1 = Some 3" "10 \<notin> keys (ts2Val ?s)"
    unfolding st by simp_all
  have ev: "updateTimestamp 10 1 ?s =
     Inr \<lparr>ts2Val = [(10, 1), (100, 0)], val2Ts = [(0, 100), (1, 10)], exit_flag = False,
          joinable = True, notified = 3, fired = []\<rparr>"
    unfolding st by (simp add: updateTimestamp_def notify_one_def)
  from updateTimestamp_moves_event [OF wf bij, of 1 10] old ev wf bij show ?thesis
    by auto
qed

theorem updateTimestamp_occupied_slot_counterexample:
  "well_formed (addEvent 2 20 (addEvent 1 10 (construct (100::nat) (0::nat)))) \<and>
   bijective (addEvent 2 20 (addEvent 1 10 (construct (100::nat) (0::nat)))) \<and>
   map_of (val2Ts (addEvent 2 20 (addEvent 1 10 (construct (100::nat) (0::nat))))) 10 = Some 1 \<and>
   updateTimestamp 2 10 (addEvent 2 20 (addEvent 1 10 (construct (100::nat) (0::nat)))) =
     Inr \<lparr>ts2Val = [(2, 20), (100, 0)], val2Ts = [(0, 100), (10, 2), (20, 2)],
          exit_flag = False, joinable = True, notified = 4, fired = []\<rparr> \<and>
   \<not> bijective \<lparr>ts2Val = [(2, 20), (100, 0)], val2Ts = [(0, 100), (10, 2), (20, 2)],
          exit_flag = False, joinable = True, notified = 4,
          fired = ([] :: (nat, nat) expiry list)\<rparr>"
  by (simp add: construct_def addEvent_def notify_one_def updateTimestamp_def bijective_def
      well_formed_def ordered_def)

section \<open>The drain loop\<close>

lemma drain_empty: "ts2Val s = [] \<Longrightarrow> drain now s = Inl DerefEnd"
  by (subst drain.simps) simp

lemma drain_fire: "ts2Val s = (t, v) # rest \<Longrightarrow> t \<le> now \<Longrightarrow> drain now s = drain now (fire_front t v s)"
  by (subst drain.simps) simp

lemma drain_done: "ts2Val s = (t, v) # rest \<Longrightarrow> now < t \<Longrightarrow> drain now s = Inr s"
  by (subst drain.simps) auto

lemma fire_front_fields:
  "ts2Val (fire_front t v s) = tl (ts2Val s)"
  "val2Ts (fire_front t v s) = erase v (val2Ts s)"
  "fired (fire_front t v s) =
     fired s @ [\<lparr>exp_ts = t, exp_val = v, live_ts2Val = ts2Val s, live_val2Ts = val2Ts s\<rparr>]"
  "exit_flag (fire_front t v s) = exit_flag s"
  "joinable (fire_front t v s) = joinable s"
  "notified (fire_front t v s) = notified s"
  by (simp_all add: fire_front_def onTimestampExpire_def)

lemma delivered_fire_front: "delivered (fire_front t v s) = delivered s @ [(t, v)]"
  by (simp add: delivered_def fire_front_fields)

text \<open>The loop fires the entries in front of the first one that is not due yet.\<close>

lemma drain_prefix:
  "ts2Val s = due @ nxt # rest \<Longrightarrow> \<forall>p \<in> set due. fst p \<le> now \<Longrightarrow> now < fst nxt \<Longrightarrow>
   \<exists>s'. drain now s = Inr s' \<and> ts2Val s' = nxt # rest \<and>
        val2Ts s' = foldl (\<lambda>m p. erase (snd p) m) (val2Ts s) due \<and>
        delivered s' = delivered s @ due \<and>
        exit_flag s' = exit_flag s \<and> joinable s' = joinable s \<and> notified s' = notified s"
proof (induction due arbitrary: s)
  case Nil
  then have "drain now s = Inr s"
    by (cases nxt) (simp add: drain_done)
  with Nil show ?case by simp
next
  case (Cons p due)
  obtain t v where p: "p = (t, v)" by (cases p)
  from Cons.prems have step: "drain now s = drain now (fire_front t v s)"
    by (simp add: p drain_fire)
  have "ts2Val (fire_front t v s) = due @ nxt # rest"
    using Cons.prems by (simp add: fire_front_fields)
  from Cons.IH [OF this] Cons.prems show ?case
    by (simp add: step fire_front_fields delivered_fire_front p)
qed

lemma drain_all_due: "\<forall>p \<in> set (ts2Val s). fst p \<le> now \<Longrightarrow> drain now s = Inl DerefEnd"
proof (induction "ts2Val s" arbitrary: s)
  case Nil
  then show ?case by (simp add: drain_empty)
next
  case (Cons p m)
  obtain t v where p: "p = (t, v)" by (cases p)
  from Cons.hyps(2) have ts: "ts2Val s = (t, v) # m" by (simp add: p)
  with Cons.prems have "drain now s = drain now (fire_front t v s)"
    by (simp add: drain_fire)
  moreover have "drain now (fire_front t v s) = Inl DerefEnd"
    using Cons.prems by (intro Cons.hyps(1)) (simp_all add: fire_front_fields ts)
  ultimately show ?case by simp
qed

lemma split_due:
  assumes "\<exists>p \<in> set m. \<not> P p"
  shows "\<exists>nxt rest. m = takeWhile P m @ nxt # rest \<and> \<not> P nxt \<and> dropWhile P m = nxt # rest"
proof -
  from assms have ne: "dropWhile P m \<noteq> []" by (simp add: dropWhile_eq_Nil_conv)
  then obtain nxt rest where d: "dropWhile P m = nxt # rest" by (cases "dropWhile P m") auto
  from ne have "\<not> P (hd (dropWhile P m))" by (rule hd_dropWhile)
  with d have "\<not> P nxt" by simp
  moreover have "m = takeWhile P m @ nxt # rest"
    using takeWhile_dropWhile_id [of P m] d by simp
  ultimately show ?thesis using d by blast
qed

lemma drain_future:
  assumes "\<exists>p \<in> set (ts2Val s). now < fst p"
  shows "\<exists>s'. drain now s = Inr s' \<and>
           ts2Val s' = dropWhile (\<lambda>p. fst p \<le> now) (ts2Val s) \<and>
           val2Ts s' = foldl (\<lambda>m p. erase (snd p) m) (val2Ts s)
                         (takeWhile (\<lambda>p. fst p \<le> now) (ts2Val s)) \<and>
           delivered s' = delivered s @ takeWhile (\<lambda>p. fst p \<le> now) (ts2Val s) \<and>
           exit_flag s' = exit_flag s \<and> joinable s' = joinable s \<and> notified s' = notified s"
proof -
  let ?P = "\<lambda>p. fst p \<le> now"
  from assms have "\<exists>p \<in> set (ts2Val s). \<not> ?P p" by (auto simp: not_le)
  from split_due [OF this] obtain nxt rest where
    m: "ts2Val s = takeWhile ?P (ts2Val s) @ nxt # rest" and n: "\<not> ?P nxt"
    and d: "dropWhile ?P (ts2Val s) = nxt # rest" by blast
  have "\<forall>p \<in> set (takeWhile ?P (ts2Val s)). fst p \<le> now"
    by (auto dest: set_takeWhileD)
  from drain_prefix [OF m this] n d show ?thesis by (simp add: not_le)
qed

lemma filter_due:
  "ordered m \<Longrightarrow> filter (\<lambda>p. fst p \<le> now) m = takeWhile (\<lambda>p. fst p \<le> now) m"
proof (induction m)
  case Nil
  show ?case by simp
next
  case (Cons p m)
  obtain k a where p: "p = (k, a)" by (cases p)
  from Cons.prems have lt: "\<forall>q \<in> set m. k < fst q" and om: "ordered m"
    by (simp_all add: p ordered_Cons)
  show ?case
  proof (cases "k \<le> now")
    case True
    with Cons.IH om show ?thesis by (simp add: p)
  next
    case False
    with lt have "\<forall>q \<in> set m. \<not> fst q \<le> now" by auto
    then have "filter (\<lambda>p. fst p \<le> now) m = []" by (simp add: filter_empty_conv)
    with False show ?thesis by (simp add: p)
  qed
qed

lemma filter_future:
  "ordered m \<Longrightarrow> filter (\<lambda>p. now < fst p) m = dropWhile (\<lambda>p. fst p \<le> now) m"
proof (induction m)
  case Nil
  show ?case by simp
next
  case (Cons p m)
  obtain k a where p: "p = (k, a)" by (cases p)
  from Cons.prems have lt: "\<forall>q \<in> set m. k < fst q" and om: "ordered m"
    by (simp_all add: p ordered_Cons)
  show ?case
  proof (cases "k \<le> now")
    case True
    with Cons.IH om show ?thesis by (simp add: p)
  next
    case False
    with lt have "\<forall>q \<in> set m. now < fst q" by auto
    then have "filter (\<lambda>p. now < fst p) m = m" by (simp add: filter_id_conv)
    with False show ?thesis by (simp add: p)
  qed
qed

lemma ordered_filter: "ordered m \<Longrightarrow> ordered (filter P m)"
  by (induction m) (auto simp: ordered_Cons)

lemma keys_foldl_erase:
  "k \<in> keys (foldl (\<lambda>m p. erase (snd p) m) m ps) \<longleftrightarrow> k \<in> keys m \<and> k \<notin> snd ` set ps"
  by (induction ps arbitrary: m) (auto simp: keys_erase)

lemma set_emplace_fresh: "k \<notin> keys m \<Longrightarrow> set (emplace k a m) = insert (k, a) (set m)"
  by (induction m) (auto simp: in_keysI split: if_splits)

lemma add_all_ts2Val:
  "ordered (ts2Val s) \<Longrightarrow> distinct (map fst evs) \<Longrightarrow> keys evs \<inter> keys (ts2Val s) = {} \<Longrightarrow>
   ordered (ts2Val (fold (\<lambda>(t, v). addEvent t v) evs s)) \<and>
   set (ts2Val (fold (\<lambda>(t, v). addEvent t v) evs s)) = set (ts2Val s) \<union> set evs"
proof (induction evs arbitrary: s)
  case Nil
  then show ?case by simp
next
  case (Cons p evs)
  obtain t v where p: "p = (t, v)" by (cases p)
  let ?s = "addEvent t v s"
  have ts: "ts2Val ?s = emplace t v (ts2Val s)"
    by (simp add: addEvent_def notify_one_def)
  from Cons.prems have fresh: "t \<notin> keys (ts2Val s)" by (auto simp: p)
  have 1: "ordered (ts2Val ?s)" using Cons.prems by (simp add: ts ordered_emplace)
  have 2: "distinct (map fst evs)" using Cons.prems by simp
  have 3: "keys evs \<inter> keys (ts2Val ?s) = {}"
    using Cons.prems by (auto simp: ts keys_emplace p)
  from Cons.IH [OF 1 2 3] fresh show ?case
    by (simp add: p ts set_emplace_fresh)
qed

lemma add_all_other:
  "fired (fold (\<lambda>(t, v). addEvent t v) evs s) = fired s"
proof (induction evs arbitrary: s)
  case Nil
  show ?case by simp
next
  case (Cons p evs)
  obtain t v where p: "p = (t, v)" by (cases p)
  have "fired (addEvent t v s) = fired s" by (simp add: addEvent_def notify_one_def)
  with Cons.IH [of "addEvent t v s"] show ?case by (simp add: p)
qed

lemma construct_fields:
  "ts2Val (construct cent dflt) = [(cent, dflt)]"
  "val2Ts (construct cent dflt) = [(dflt, cent)]"
  "fired (construct cent dflt) = []"
  "exit_flag (construct cent dflt) = False"
  "joinable (construct cent dflt) = True"
  "notified (construct cent dflt) = 1"
  by (simp_all add: construct_def addEvent_def notify_one_def)

section \<open>Firing\<close>

lemma fire_front_invariant:
  assumes wf: "well_formed s" and bij: "bijective s" and ts: "ts2Val s = (t, v) # rest"
  shows "well_formed (fire_front t v s) \<and> bijective (fire_front t v s)"
proof -
  let ?A = "ts2Val s" and ?V = "val2Ts s" and ?s = "fire_front t v s"
  from wf have oA: "ordered ?A" and oV: "ordered ?V"
    by (simp_all add: well_formed_def)
  from bij wf have B: "\<And>t v. map_of ?A t = Some v \<longleftrightarrow> map_of ?V v = Some t"
    by (simp add: bijective_iff)
  from oA ts have orest: "ordered rest" and fresh: "t \<notin> keys rest"
    by (auto simp: ordered_Cons)
  have wf': "well_formed ?s"
    by (simp add: well_formed_def fire_front_fields ts orest ordered_erase oV)
  have mA: "map_of (ts2Val ?s) = (map_of ?A)(t := None)"
    using fresh by (auto simp: fire_front_fields ts fun_eq_iff keys_dom domIff)
  have mV: "map_of (val2Ts ?s) = (map_of ?V)(v := None)"
    by (simp add: fire_front_fields map_of_erase)
  have hd: "map_of ?A t = Some v" by (simp add: ts)
  then have hd': "map_of ?V v = Some t" by (simp add: B)
  have "map_of (ts2Val ?s) t' = Some v' \<longleftrightarrow> map_of (val2Ts ?s) v' = Some t'" for t' v'
    using B [of t' v'] hd hd' by (auto simp: mA mV)
  with wf' show ?thesis by (simp add: bijective_iff)
qed

lemma drain_snapshots:
  "well_formed s \<Longrightarrow> bijective s \<Longrightarrow> ts2Val s = due @ nxt # rest \<Longrightarrow>
   \<forall>p \<in> set due. fst p \<le> now \<Longrightarrow> now < fst nxt \<Longrightarrow>
   \<exists>s' new. drain now s = Inr s' \<and> fired s' = fired s @ new \<and>
     (\<forall>e \<in> set new. map_of (live_ts2Val e) (exp_ts e) = Some (exp_val e) \<and>
                     map_of (live_val2Ts e) (exp_val e) = Some (exp_ts e)) \<and>
     well_formed s' \<and> bijective s'"
proof (induction due arbitrary: s)
  case Nil
  then have "drain now s = Inr s"
    by (cases nxt) (simp add: drain_done)
  with Nil show ?case by simp
next
  case (Cons p due)
  obtain t v where p: "p = (t, v)" by (cases p)
  let ?s = "fire_front t v s"
  from Cons.prems have ts: "ts2Val s = (t, v) # (due @ nxt # rest)" by (simp add: p)
  from Cons.prems have step: "drain now s = drain now ?s"
    by (simp add: p drain_fire)
  from fire_front_invariant [OF Cons.prems(1,2) ts]
  have inv: "well_formed ?s" "bijective ?s" by simp_all
  have "ts2Val ?s = due @ nxt # rest"
    by (simp add: fire_front_fields ts)
  from Cons.IH [OF inv this] Cons.prems obtain s' new where
    run: "drain now ?s = Inr s'" and f: "fired s' = fired ?s @ new"
    and snap: "\<forall>e \<in> set new. map_of (live_ts2Val e) (exp_ts e) = Some (exp_val e) \<and>
                     map_of (live_val2Ts e) (exp_val e) = Some (exp_ts e)"
    and inv': "well_formed s'" "bijective s'"
    by auto
  let ?e = "\<lparr>exp_ts = t, exp_val = v, live_ts2Val = ts2Val s, live_val2Ts = val2Ts s\<rparr>"
  have "map_of (ts2Val s) t = Some v" by (simp add: ts)
  moreover from this Cons.prems(1,2) have "map_of (val2Ts s) v = Some t"
    by (simp add: bijective_iff)
  ultimately have snap': "\<forall>e \<in> set (?e # new). map_of (live_ts2Val e) (exp_ts e) = Some (exp_val e) \<and>
                     map_of (live_val2Ts e) (exp_val e) = Some (exp_ts e)"
    using snap by simp
  show ?case
  proof (intro exI conjI)
    show "drain now s = Inr s'" using step run by simp
    show "fired s' = fired s @ ?e # new" by (simp add: f fire_front_fields)
    show "\<forall>e \<in> set (?e # new). map_of (live_ts2Val e) (exp_ts e) = Some (exp_val e) \<and>
                     map_of (live_val2Ts e) (exp_val e) = Some (exp_ts e)" by (rule snap')
    show "well_formed s'" "bijective s'" by (rule inv')+
  qed
qed

section \<open>The bijection under sequences of calls\<close>

lemma bijectiveI:
  "well_formed s \<Longrightarrow>
   (\<And>t v. map_of (ts2Val s) t = Some v \<longleftrightarrow> map_of (val2Ts s) v = Some t) \<Longrightarrow> bijective s"
  by (simp add: bijective_iff)

lemma addEvent_fresh:
  assumes wf: "well_formed s" and bij: "bijective s"
    and ft: "timestamp \<notin> keys (ts2Val s)" and fv: "val \<notin> keys (val2Ts s)"
  shows "well_formed (addEvent timestamp val s) \<and> bijective (addEvent timestamp val s) \<and>
         keys (ts2Val (addEvent timestamp val s)) = insert timestamp (keys (ts2Val s)) \<and>
         keys (val2Ts (addEvent timestamp val s)) = insert val (keys (val2Ts s))"
proof -
  let ?A = "ts2Val s" and ?V = "val2Ts s" and ?s = "addEvent timestamp val s"
  from wf have oA: "ordered ?A" and oV: "ordered ?V"
    by (simp_all add: well_formed_def)
  from bij wf have B: "\<And>t v. map_of ?A t = Some v \<longleftrightarrow> map_of ?V v = Some t"
    by (simp add: bijective_iff)
  have tsA: "ts2Val ?s = emplace timestamp val ?A" and tsV: "val2Ts ?s = emplace val timestamp ?V"
    by (simp_all add: addEvent_def notify_one_def)
  have wf': "well_formed ?s"
    by (simp add: well_formed_def tsA tsV ordered_emplace oA oV)
  have mA: "map_of (ts2Val ?s) = (map_of ?A)(timestamp \<mapsto> val)"
    using ft by (simp add: tsA map_of_emplace oA)
  have mV: "map_of (val2Ts ?s) = (map_of ?V)(val \<mapsto> timestamp)"
    using fv by (simp add: tsV map_of_emplace oV)
  from ft have nA: "map_of ?A timestamp = None" by (simp add: keys_dom domIff)
  from fv have nV: "map_of ?V val = None" by (simp add: keys_dom domIff)
  have "map_of (ts2Val ?s) t = Some v \<longleftrightarrow> map_of (val2Ts ?s) v = Some t" for t v
    using B [of t v] nA nV by (auto simp: mA mV)
  with wf' have "bijective ?s" by (rule bijectiveI)
  with wf' show ?thesis by (simp add: tsA tsV keys_emplace)
qed

lemma removeEvent_value_invariant:
  assumes wf: "well_formed s" and bij: "bijective s"
  shows "well_formed (removeEvent_value val s) \<and> bijective (removeEvent_value val s) \<and>
         keys (ts2Val (removeEvent_value val s)) \<subseteq> keys (ts2Val s) \<and>
         keys (val2Ts (removeEvent_value val s)) \<subseteq> keys (val2Ts s)"
proof (cases "map_of (val2Ts s) val")
  case None
  with wf bij show ?thesis by (simp add: removeEvent_value_def)
next
  case (Some ts)
  let ?A = "ts2Val s" and ?V = "val2Ts s"
  let ?s = "s\<lparr>ts2Val := erase ts ?A, val2Ts := erase val ?V\<rparr>"
  from Some have eq: "removeEvent_value val s = ?s" by (simp add: removeEvent_value_def)
  from wf have oA: "ordered ?A" and oV: "ordered ?V"
    by (simp_all add: well_formed_def)
  from bij wf have B: "\<And>t v. map_of ?A t = Some v \<longleftrightarrow> map_of ?V v = Some t"
    by (simp add: bijective_iff)
  from Some B have mirror: "map_of ?A ts = Some val" by simp
  have wf': "well_formed ?s" by (simp add: well_formed_def ordered_erase oA oV)
  have "map_of (ts2Val ?s) t = Some v \<longleftrightarrow> map_of (val2Ts ?s) v = Some t" for t v
    using B [of t v] Some mirror by (auto simp: map_of_erase)
  with wf' have "bijective ?s" by (rule bijectiveI)
  with wf' show ?thesis by (auto simp: eq keys_erase)
qed

lemma removeEvent_timestamp_invariant:
  assumes wf: "well_formed s" and bij: "bijective s"
  shows "well_formed (removeEvent_timestamp timestamp s) \<and>
         bijective (removeEvent_timestamp timestamp s) \<and>
         keys (ts2Val (removeEvent_timestamp timestamp s)) \<subseteq> keys (ts2Val s) \<and>
         keys (val2Ts (removeEvent_timestamp timestamp s)) \<subseteq> keys (val2Ts s)"
proof (cases "map_of (ts2Val s) timestamp")
  case None
  with wf bij show ?thesis by (simp add: removeEvent_timestamp_def)
next
  case (Some v0)
  let ?A = "ts2Val s" and ?V = "val2Ts s"
  let ?s = "s\<lparr>val2Ts := erase v0 ?V, ts2Val := erase timestamp ?A\<rparr>"
  from Some have eq: "removeEvent_timestamp timestamp s = ?s"
    by (simp add: removeEvent_timestamp_def)
  from wf have oA: "ordered ?A" and oV: "ordered ?V"
    by (simp_all add: well_formed_def)
  from bij wf have B: "\<And>t v. map_of ?A t = Some v \<longleftrightarrow> map_of ?V v = Some t"
    by (simp add: bijective_iff)
  from Some B have mirror: "map_of ?V v0 = Some timestamp" by simp
  have wf': "well_formed ?s" by (simp add: well_formed_def ordered_erase oA oV)
  have "map_of (ts2Val ?s) t = Some v \<longleftrightarrow> map_of (val2Ts ?s) v = Some t" for t v
    using B [of t v] Some mirror by (auto simp: map_of_erase)
  with wf' have "bijective ?s" by (rule bijectiveI)
  with wf' show ?thesis by (auto simp: eq keys_erase)
qed

lemma notify_one_invariant:
  "well_formed (notify_one s) = well_formed s" "bijective (notify_one s) = bijective s"
  "ts2Val (notify_one s) = ts2Val s" "val2Ts (notify_one s) = val2Ts s"
  by (simp_all add: notify_one_def well_formed_def bijective_def)

lemma apply_call_bijective:
  assumes wf: "well_formed s" and bij: "bijective s"
    and ft: "set (new_timestamps c) \<inter> keys (ts2Val s) = {}"
    and fv: "set (new_values c) \<inter> keys (val2Ts s) = {}"
  shows "\<exists>s'. apply_call c s = Inr s' \<and> well_formed s' \<and> bijective s' \<and>
           keys (ts2Val s') \<subseteq> keys (ts2Val s) \<union> set (new_timestamps c) \<and>
           keys (val2Ts s') \<subseteq> keys (val2Ts s) \<union> set (new_values c)"
proof (cases c)
  case (AddEvent t v)
  with ft fv have "t \<notin> keys (ts2Val s)" "v \<notin> keys (val2Ts s)" by simp_all
  from addEvent_fresh [OF wf bij this] show ?thesis by (simp add: AddEvent)
next
  case (RemoveValue v)
  from removeEvent_value_invariant [OF wf bij, of v] show ?thesis
    by (auto simp: RemoveValue)
next
  case (RemoveTimestamp t)
  from removeEvent_timestamp_invariant [OF wf bij, of t] show ?thesis
    by (auto simp: RemoveTimestamp)
next
  case (UpdateValue t v)
  show ?thesis
  proof (cases "map_of (ts2Val s) t")
    case None
    then have "updateValue t v s = Inr (notify_one s)" by (simp add: updateValue_def)
    with wf bij show ?thesis by (auto simp: UpdateValue notify_one_invariant)
  next
    case (Some old)
    from fv have "v \<notin> keys (val2Ts s) \<or> v = old" by (simp add: UpdateValue)
    from updateValue_moves [OF wf bij Some this] obtain s' where
      run: "updateValue t v s = Inr s'"
      and mV: "map_of (val2Ts s') = ((map_of (val2Ts s))(old := None))(v \<mapsto> t)"
      and kA: "map fst (ts2Val s') = map fst (ts2Val s)"
      and inv: "well_formed s'" "bijective s'" by blast
    from kA have "keys (ts2Val s') = keys (ts2Val s)"
      by (metis set_map)
    moreover have "keys (val2Ts s') \<subseteq> keys (val2Ts s) \<union> {v}"
      by (auto simp: keys_dom mV split: if_splits)
    ultimately show ?thesis using run inv by (simp add: UpdateValue)
  qed
next
  case (UpdateTimestamp t v)
  show ?thesis
  proof (cases "map_of (val2Ts s) v")
    case None
    then have "updateTimestamp t v s = Inr (notify_one s)" by (simp add: updateTimestamp_def)
    with wf bij show ?thesis by (auto simp: UpdateTimestamp notify_one_invariant)
  next
    case (Some old)
    from ft have "t \<notin> keys (ts2Val s) \<or> t = old" by (simp add: UpdateTimestamp)
    from updateTimestamp_moves [OF wf bij Some this] obtain s' where
      run: "updateTimestamp t v s = Inr s'"
      and mA: "map_of (ts2Val s') = ((map_of (ts2Val s))(old := None))(t \<mapsto> v)"
      and kV: "map fst (val2Ts s') = map fst (val2Ts s)"
      and inv: "well_formed s'" "bijective s'" by blast
    from kV have "keys (val2Ts s') = keys (val2Ts s)"
      by (metis set_map)
    moreover have "keys (ts2Val s') \<subseteq> keys (ts2Val s) \<union> {t}"
      by (auto simp: keys_dom mA split: if_splits)
    ultimately show ?thesis using run inv by (simp add: UpdateTimestamp)
  qed
qed

lemma construct_invariant: "well_formed (construct cent dflt) \<and> bijective (construct cent dflt)"
  by (simp add: well_formed_def bijective_def construct_fields ordered_def)

section \<open>The sentinel\<close>

lemma set_emplace_mono: "p \<in> set m \<Longrightarrow> p \<in> set (emplace k a m)"
  by (induction m) auto

lemma set_emplace_cases: "p \<in> set (emplace k a m) \<Longrightarrow> p \<in> set m \<or> p = (k, a)"
  using set_emplace [of k a m] by auto

lemma set_assign_cases: "p \<in> set (assign k a m) \<Longrightarrow> p \<in> set m \<or> p = (k, a)"
  by (induction m) (auto split: if_splits)

lemma set_assign_other: "p \<in> set m \<Longrightarrow> fst p \<noteq> k \<Longrightarrow> p \<in> set (assign k a m)"
  by (induction m) auto

lemma set_dropWhile_keep: "x \<in> set xs \<Longrightarrow> \<not> P x \<Longrightarrow> x \<in> set (dropWhile P xs)"
  by (induction xs) auto

lemma set_foldl_erase:
  "p \<in> set (foldl (\<lambda>m q. erase (snd q) m) m ps) \<longleftrightarrow> p \<in> set m \<and> fst p \<notin> snd ` set ps"
  by (induction ps arbitrary: m) (auto simp: set_erase)

lemma sentinel_keptD:
  assumes "sentinel_kept cent dflt s"
  shows "(cent, dflt) \<in> set (ts2Val s)" "(dflt, cent) \<in> set (val2Ts s)"
    "\<And>t v. (t, v) \<in> set (ts2Val s) \<Longrightarrow> (t = cent) = (v = dflt)"
    "\<And>t v. (v, t) \<in> set (val2Ts s) \<Longrightarrow> (t = cent) = (v = dflt)"
  using assms by (auto simp: sentinel_kept_def)

lemma sentinel_keptI:
  assumes "(cent, dflt) \<in> set (ts2Val s)" "(dflt, cent) \<in> set (val2Ts s)"
    "\<And>t v. (t, v) \<in> set (ts2Val s) \<Longrightarrow> (t = cent) = (v = dflt)"
    "\<And>t v. (v, t) \<in> set (val2Ts s) \<Longrightarrow> (t = cent) = (v = dflt)"
  shows "sentinel_kept cent dflt s"
  using assms by (auto simp: sentinel_kept_def)

lemma sentinel_kept_present:
  assumes "sentinel_kept cent dflt s"
  shows "sentinel_present cent dflt s \<and> ts2Val s \<noteq> [] \<and> val2Ts s \<noteq> []"
proof -
  note J = sentinel_keptD [OF assms]
  from J(1) have "cent \<in> keys (ts2Val s)" by (rule in_keysI)
  then obtain v where v: "map_of (ts2Val s) cent = Some v"
    by (auto simp: keys_dom)
  then have "(cent, v) \<in> set (ts2Val s)" by (rule map_of_SomeD)
  with J(3) have "v = dflt" by blast
  from J(2) have "dflt \<in> keys (val2Ts s)" by (rule in_keysI)
  then obtain t where t: "map_of (val2Ts s) dflt = Some t"
    by (auto simp: keys_dom)
  then have "(dflt, t) \<in> set (val2Ts s)" by (rule map_of_SomeD)
  with J(4) have "t = cent" by blast
  from v t \<open>v = dflt\<close> \<open>t = cent\<close> J(1,2) show ?thesis
    by (auto simp: sentinel_present_def)
qed

lemma sentinel_kept_notify: "sentinel_kept cent dflt (notify_one s) = sentinel_kept cent dflt s"
  by (simp add: sentinel_kept_def notify_one_def)

lemma addEvent_sentinel:
  assumes J: "sentinel_kept cent dflt s" and a: "t \<noteq> cent" "v \<noteq> dflt"
  shows "sentinel_kept cent dflt (addEvent t v s)"
proof (rule sentinel_keptI)
  note D = sentinel_keptD [OF J]
  have A: "ts2Val (addEvent t v s) = emplace t v (ts2Val s)"
    and V: "val2Ts (addEvent t v s) = emplace v t (val2Ts s)"
    by (simp_all add: addEvent_def notify_one_def)
  show "(cent, dflt) \<in> set (ts2Val (addEvent t v s))"
    unfolding A using D(1) by (rule set_emplace_mono)
  show "(dflt, cent) \<in> set (val2Ts (addEvent t v s))"
    unfolding V using D(2) by (rule set_emplace_mono)
  show "(t' = cent) = (v' = dflt)" if "(t', v') \<in> set (ts2Val (addEvent t v s))" for t' v'
    using that a D(3) unfolding A by (auto dest!: set_emplace_cases)
  show "(t' = cent) = (v' = dflt)" if "(v', t') \<in> set (val2Ts (addEvent t v s))" for t' v'
    using that a D(4) unfolding V by (auto dest!: set_emplace_cases)
qed

lemma removeEvent_value_sentinel:
  assumes J: "sentinel_kept cent dflt s" and a: "v \<noteq> dflt"
  shows "sentinel_kept cent dflt (removeEvent_value v s)"
proof (cases "map_of (val2Ts s) v")
  case None
  with J show ?thesis by (simp add: removeEvent_value_def)
next
  case (Some t0)
  note D = sentinel_keptD [OF J]
  from Some have "(v, t0) \<in> set (val2Ts s)" by (rule map_of_SomeD)
  with D(4) a have t0: "t0 \<noteq> cent" by blast
  let ?s = "s\<lparr>ts2Val := erase t0 (ts2Val s), val2Ts := erase v (val2Ts s)\<rparr>"
  have "sentinel_kept cent dflt ?s"
    using D a t0 by (intro sentinel_keptI) (auto simp: set_erase)
  with Some show ?thesis by (simp add: removeEvent_value_def)
qed

lemma removeEvent_timestamp_sentinel:
  assumes J: "sentinel_kept cent dflt s" and a: "t \<noteq> cent"
  shows "sentinel_kept cent dflt (removeEvent_timestamp t s)"
proof (cases "map_of (ts2Val s) t")
  case None
  with J show ?thesis by (simp add: removeEvent_timestamp_def)
next
  case (Some v0)
  note D = sentinel_keptD [OF J]
  from Some have "(t, v0) \<in> set (ts2Val s)" by (rule map_of_SomeD)
  with D(3) a have v0: "v0 \<noteq> dflt" by blast
  let ?s = "s\<lparr>val2Ts := erase v0 (val2Ts s), ts2Val := erase t (ts2Val s)\<rparr>"
  have "sentinel_kept cent dflt ?s"
    using D a v0 by (intro sentinel_keptI) (auto simp: set_erase)
  with Some show ?thesis by (simp add: removeEvent_timestamp_def)
qed

lemma updateValue_sentinel:
  assumes J: "sentinel_kept cent dflt s" and a: "t \<noteq> cent" "v \<noteq> dflt"
  shows "updateValue t v s = Inl EmptyNodeHandle \<or>
         (\<exists>s'. updateValue t v s = Inr s' \<and> sentinel_kept cent dflt s')"
proof (cases "map_of (ts2Val s) t")
  case None
  with J show ?thesis by (simp add: updateValue_def sentinel_kept_notify)
next
  case (Some old)
  note D = sentinel_keptD [OF J]
  from Some have "(t, old) \<in> set (ts2Val s)" by (rule map_of_SomeD)
  with D(3) a have old: "old \<noteq> dflt" by blast
  show ?thesis
  proof (cases "map_of (val2Ts s) old")
    case None
    with Some show ?thesis by (simp add: updateValue_def)
  next
    case (Some t0)
    then have "(old, t0) \<in> set (val2Ts s)" by (rule map_of_SomeD)
    with D(4) old have t0: "t0 \<noteq> cent" by blast
    let ?s = "s\<lparr>val2Ts := emplace v t0 (erase old (val2Ts s)),
                 ts2Val := assign t v (ts2Val s)\<rparr>"
    have "sentinel_kept cent dflt ?s"
    proof (rule sentinel_keptI)
      show "(cent, dflt) \<in> set (ts2Val ?s)"
        using D(1) a by (simp add: set_assign_other)
      show "(dflt, cent) \<in> set (val2Ts ?s)"
        using D(2) old by (simp add: set_emplace_mono set_erase)
      show "(t' = cent) = (v' = dflt)" if "(t', v') \<in> set (ts2Val ?s)" for t' v'
        using that a D(3) by (auto dest!: set_assign_cases)
      show "(t' = cent) = (v' = dflt)" if "(v', t') \<in> set (val2Ts ?s)" for t' v'
        using that a t0 D(4) by (fastforce dest!: set_emplace_cases simp: set_erase)
    qed
    with Some \<open>map_of (ts2Val s) t = Some old\<close> show ?thesis
      by (simp add: updateValue_def sentinel_kept_notify)
  qed
qed

lemma updateTimestamp_sentinel:
  assumes J: "sentinel_kept cent dflt s" and a: "t \<noteq> cent" "v \<noteq> dflt"
  shows "updateTimestamp t v s = Inl EmptyNodeHandle \<or>
         (\<exists>s'. updateTimestamp t v s = Inr s' \<and> sentinel_kept cent dflt s')"
proof (cases "map_of (val2Ts s) v")
  case None
  with J show ?thesis by (simp add: updateTimestamp_def sentinel_kept_notify)
next
  case (Some old)
  note D = sentinel_keptD [OF J]
  from Some have "(v, old) \<in> set (val2Ts s)" by (rule map_of_SomeD)
  with D(4) a have old: "old \<noteq> cent" by blast
  show ?thesis
  proof (cases "map_of (ts2Val s) old")
    case None
    with Some show ?thesis by (simp add: updateTimestamp_def)
  next
    case (Some v0)
    then have "(old, v0) \<in> set (ts2Val s)" by (rule map_of_SomeD)
    with D(3) old have v0: "v0 \<noteq> dflt" by blast
    let ?s = "s\<lparr>ts2Val := emplace t v0 (erase old (ts2Val s)),
                 val2Ts := assign v t (val2Ts s)\<rparr>"
    have "sentinel_kept cent dflt ?s"
    proof (rule sentinel_keptI)
      show "(dflt, cent) \<in> set (val2Ts ?s)"
        using D(2) a by (simp add: set_assign_other)
      show "(cent, dflt) \<in> set (ts2Val ?s)"
        using D(1) old by (simp add: set_emplace_mono set_erase)
      show "(t' = cent) = (v' = dflt)" if "(v', t') \<in> set (val2Ts ?s)" for t' v'
        using that a D(4) by (auto dest!: set_assign_cases)
      show "(t' = cent) = (v' = dflt)" if "(t', v') \<in> set (ts2Val ?s)" for t' v'
        using that a v0 D(3) by (fastforce dest!: set_emplace_cases simp: set_erase)
    qed
    with Some \<open>map_of (val2Ts s) v = Some old\<close> show ?thesis
      by (simp add: updateTimestamp_def sentinel_kept_notify)
  qed
qed

lemma wake_sentinel:
  assumes J: "sentinel_kept cent dflt s" and a: "now < cent"
  shows "\<exists>s'. wake now s = Inr s' \<and> sentinel_kept cent dflt s'"
proof (cases "exit_flag s")
  case True
  with J show ?thesis by (simp add: wake_def)
next
  case False
  note D = sentinel_keptD [OF J]
  let ?P = "\<lambda>p. fst p \<le> now"
  from D(1) a have "\<exists>p \<in> set (ts2Val s). now < fst p" by force
  from drain_future [OF this] obtain s' where
    run: "drain now s = Inr s'"
    and A: "ts2Val s' = dropWhile ?P (ts2Val s)"
    and V: "val2Ts s' = foldl (\<lambda>m p. erase (snd p) m) (val2Ts s) (takeWhile ?P (ts2Val s))"
    by blast
  have due: "v \<noteq> dflt" if "(t, v) \<in> set (takeWhile ?P (ts2Val s))" for t v
  proof -
    from that have "(t, v) \<in> set (ts2Val s)" and "t \<le> now"
      by (auto dest: set_takeWhileD)
    with a D(3) [of t v] show ?thesis by auto
  qed
  have "sentinel_kept cent dflt s'"
  proof (rule sentinel_keptI)
    show "(cent, dflt) \<in> set (ts2Val s')"
      unfolding A using D(1) a by (intro set_dropWhile_keep) auto
    show "(dflt, cent) \<in> set (val2Ts s')"
      unfolding V using D(2) due by (fastforce simp: set_foldl_erase)
    show "(t' = cent) = (v' = dflt)" if "(t', v') \<in> set (ts2Val s')" for t' v'
      using that D(3) unfolding A by (auto dest: set_dropWhileD)
    show "(t' = cent) = (v' = dflt)" if "(v', t') \<in> set (val2Ts s')" for t' v'
      using that D(4) unfolding V by (simp add: set_foldl_erase)
  qed
  with run False show ?thesis by (simp add: wake_def)
qed

lemma apply_step_sentinel:
  assumes J: "sentinel_kept cent dflt s" and a: "avoids_sentinel cent dflt x"
  shows "apply_step x s = Inl EmptyNodeHandle \<or>
         (\<exists>s'. apply_step x s = Inr s' \<and> sentinel_kept cent dflt s')"
proof (cases x)
  case (Call c)
  show ?thesis
  proof (cases c)
    case (AddEvent t v)
    with a Call addEvent_sentinel [OF J, of t v] show ?thesis by simp
  next
    case (RemoveValue v)
    with a Call removeEvent_value_sentinel [OF J, of v] show ?thesis by simp
  next
    case (RemoveTimestamp t)
    with a Call removeEvent_timestamp_sentinel [OF J, of t] show ?thesis by simp
  next
    case (UpdateValue t v)
    with a Call updateValue_sentinel [OF J, of t v] show ?thesis by simp
  next
    case (UpdateTimestamp t v)
    with a Call updateTimestamp_sentinel [OF J, of t v] show ?thesis by simp
  qed
next
  case Arm
  from sentinel_keptD(1) [OF J] have "ts2Val s \<noteq> []" by auto
  then have "\<exists>d. wait_deadline s = Inr d"
    by (cases "ts2Val s") (auto simp: wait_deadline_def)
  with J Arm show ?thesis by auto
next
  case (Wake now)
  with a wake_sentinel [OF J, of now] show ?thesis by simp
qed

lemma run_steps_sentinel:
  "sentinel_kept cent dflt s \<Longrightarrow> \<forall>x \<in> set steps. avoids_sentinel cent dflt x \<Longrightarrow>
   run_steps steps s = Inl EmptyNodeHandle \<or>
   (\<exists>s'. run_steps steps s = Inr s' \<and> sentinel_kept cent dflt s')"
proof (induction steps arbitrary: s)
  case Nil
  then show ?case by simp
next
  case (Cons x steps)
  from Cons.prems have "avoids_sentinel cent dflt x" by simp
  from apply_step_sentinel [OF Cons.prems(1) this] show ?case
  proof
    assume "apply_step x s = Inl EmptyNodeHandle"
    then show ?thesis by simp
  next
    assume "\<exists>s'. apply_step x s = Inr s' \<and> sentinel_kept cent dflt s'"
    then obtain s1 where s1: "apply_step x s = Inr s1" "sentinel_kept cent dflt s1" by blast
    from Cons.IH [OF s1(2)] Cons.prems(2) s1(1) show ?thesis by simp
  qed
qed

lemma wake_bijective:
  assumes wf: "well_formed s" and bij: "bijective s"
    and J: "sentinel_kept cent dflt s" and a: "now < cent"
  shows "\<exists>s'. wake now s = Inr s' \<and> well_formed s' \<and> bijective s' \<and>
           keys (ts2Val s') \<subseteq> keys (ts2Val s) \<and> keys (val2Ts s') \<subseteq> keys (val2Ts s)"
proof (cases "exit_flag s")
  case True
  with wf bij show ?thesis by (simp add: wake_def)
next
  case False
  let ?P = "\<lambda>p. fst p \<le> now"
  let ?due = "takeWhile ?P (ts2Val s)"
  from sentinel_keptD(1) [OF J] a have "\<exists>p \<in> set (ts2Val s). \<not> ?P p" by force
  from split_due [OF this] obtain nxt rest where
    m: "ts2Val s = ?due @ nxt # rest" and n: "\<not> ?P nxt"
    and d: "dropWhile ?P (ts2Val s) = nxt # rest" by blast
  have due: "\<forall>p \<in> set ?due. fst p \<le> now"
    by (auto dest: set_takeWhileD)
  from n have fut: "now < fst nxt" by (simp add: not_le)
  from drain_snapshots [OF wf bij m due fut] obtain s' where
    run: "drain now s = Inr s'" and inv: "well_formed s'" "bijective s'" by blast
  from drain_prefix [OF m due fut] run have
    A: "ts2Val s' = nxt # rest"
    and V: "val2Ts s' = foldl (\<lambda>m p. erase (snd p) m) (val2Ts s) ?due"
    by auto
  have "set (dropWhile ?P (ts2Val s)) \<subseteq> set (ts2Val s)" by (auto dest: set_dropWhileD)
  then have "keys (ts2Val s') \<subseteq> keys (ts2Val s)" unfolding A d [symmetric] by (rule image_mono)
  moreover have "keys (val2Ts s') \<subseteq> keys (val2Ts s)"
  proof
    fix k assume "k \<in> keys (val2Ts s')"
    then show "k \<in> keys (val2Ts s)" unfolding V by (simp only: keys_foldl_erase)
  qed
  ultimately show ?thesis using run inv False by (simp add: wake_def)
qed


lemma run_steps_total:
  "well_formed s \<Longrightarrow> bijective s \<Longrightarrow> sentinel_kept cent dflt s \<Longrightarrow>
   \<forall>x \<in> set steps. avoids_sentinel cent dflt x \<Longrightarrow>
   distinct (concat (map new_timestamps (calls_of steps))) \<Longrightarrow>
   set (concat (map new_timestamps (calls_of steps))) \<inter> keys (ts2Val s) = {} \<Longrightarrow>
   distinct (concat (map new_values (calls_of steps))) \<Longrightarrow>
   set (concat (map new_values (calls_of steps))) \<inter> keys (val2Ts s) = {} \<Longrightarrow>
   \<exists>s'. run_steps steps s = Inr s' \<and> well_formed s' \<and> bijective s' \<and> sentinel_kept cent dflt s'"
proof (induction steps arbitrary: s)
  case Nil
  then show ?case by simp
next
  case (Cons x steps)
  from Cons.prems(4) have av: "avoids_sentinel cent dflt x"
    and avs: "\<forall>x \<in> set steps. avoids_sentinel cent dflt x" by simp_all
  have "\<exists>s1. apply_step x s = Inr s1 \<and> well_formed s1 \<and> bijective s1 \<and>
          keys (ts2Val s1) \<subseteq> keys (ts2Val s) \<union> set (concat (map new_timestamps (calls_of [x]))) \<and>
          keys (val2Ts s1) \<subseteq> keys (val2Ts s) \<union> set (concat (map new_values (calls_of [x])))"
  proof (cases x)
    case (Call c)
    from Cons.prems(6,8) have "set (new_timestamps c) \<inter> keys (ts2Val s) = {}"
      and "set (new_values c) \<inter> keys (val2Ts s) = {}" by (auto simp: Call)
    from apply_call_bijective [OF Cons.prems(1,2) this] show ?thesis by (simp add: Call)
  next
    case Arm
    from sentinel_keptD(1) [OF Cons.prems(3)] have "ts2Val s \<noteq> []" by auto
    then have "\<exists>d. wait_deadline s = Inr d"
      by (cases "ts2Val s") (auto simp: wait_deadline_def)
    with Cons.prems(1,2) Arm show ?thesis by auto
  next
    case (Wake now)
    with av have "now < cent" by simp
    from wake_bijective [OF Cons.prems(1,2,3) this] show ?thesis by (auto simp: Wake)
  qed
  then obtain s1 where step: "apply_step x s = Inr s1"
    and inv: "well_formed s1" "bijective s1"
    and kA: "keys (ts2Val s1) \<subseteq> keys (ts2Val s) \<union> set (concat (map new_timestamps (calls_of [x])))"
    and kV: "keys (val2Ts s1) \<subseteq> keys (val2Ts s) \<union> set (concat (map new_values (calls_of [x])))"
    by blast
  from apply_step_sentinel [OF Cons.prems(3) av] step have J1: "sentinel_kept cent dflt s1"
    by simp
  have cs: "calls_of (x # steps) = calls_of [x] @ calls_of steps"
    by (cases x) simp_all
  have dt: "distinct (concat (map new_timestamps (calls_of steps)))"
    and dv: "distinct (concat (map new_values (calls_of steps)))"
    using Cons.prems(5,7) unfolding cs by simp_all
  have it: "set (concat (map new_timestamps (calls_of steps))) \<inter> keys (ts2Val s1) = {}"
    using Cons.prems(5,6) kA unfolding cs by (simp add: disjoint_iff) blast
  have iv: "set (concat (map new_values (calls_of steps))) \<inter> keys (val2Ts s1) = {}"
    using Cons.prems(7,8) kV unfolding cs by (simp add: disjoint_iff) blast
  from Cons.IH [OF inv J1 avs dt it dv iv] show ?case by (simp add: step)
qed

lemma construct_sentinel: "sentinel_kept cent dflt (construct cent dflt)"
  by (simp add: sentinel_kept_def construct_fields)

lemma calls_avoid_sentinel:
  "\<forall>x \<in> set steps. avoids_sentinel cent dflt x \<Longrightarrow>
   cent \<notin> set (concat (map new_timestamps (calls_of steps))) \<and>
   dflt \<notin> set (concat (map new_values (calls_of steps)))"
proof (induction steps)
  case Nil
  show ?case by simp
next
  case (Cons x steps)
  then have IH: "cent \<notin> set (concat (map new_timestamps (calls_of steps))) \<and>
   dflt \<notin> set (concat (map new_values (calls_of steps)))" by simp
  from Cons.prems have av: "avoids_sentinel cent dflt x" by simp
  show ?case
  proof (cases x)
    case (Call c)
    with av IH show ?thesis by (cases c) auto
  next
    case Arm
    with IH show ?thesis by simp
  next
    case (Wake now)
    with IH show ?thesis by simp
  qed
qed

text \<open>
  C3. Take any sequence of calls and turns of the worker on a freshly
  constructed queue in which no call has the sentinel's timestamp or the
  sentinel's value among its arguments and the worker wakes only before the
  sentinel's timestamp. Then the sequence never dereferences \<open>begin()\<close> of
  an empty map, and when it runs to its end the sentinel is stored in both
  indices, neither of which is empty; the one way it can fail to run to its end
  is the empty node handle of \<open>updateValue\<close> and \<open>updateTimestamp\<close>. When, in
  addition, the submitted timestamps are pairwise distinct and so are the
  submitted values, the sequence does run to its end, with the indices in
  bijection.
\<close>

theorem sentinel_kept_by_steps:
  assumes "\<forall>x \<in> set steps. avoids_sentinel cent dflt x"
  shows "(run_steps steps (construct cent dflt) = Inl EmptyNodeHandle \<or>
          (\<exists>s. run_steps steps (construct cent dflt) = Inr s \<and>
               sentinel_present cent dflt s \<and> ts2Val s \<noteq> [] \<and> val2Ts s \<noteq> [])) \<and>
         (distinct (concat (map new_timestamps (calls_of steps))) \<and>
          distinct (concat (map new_values (calls_of steps))) \<longrightarrow>
          (\<exists>s. run_steps steps (construct cent dflt) = Inr s \<and>
               sentinel_present cent dflt s \<and> ts2Val s \<noteq> [] \<and> val2Ts s \<noteq> [] \<and>
               bijective s))"
proof
  let ?c = "construct cent dflt"
  have "run_steps steps ?c = Inl EmptyNodeHandle \<or>
        (\<exists>s'. run_steps steps ?c = Inr s' \<and> sentinel_kept cent dflt s')"
    by (rule run_steps_sentinel [OF construct_sentinel assms])
  then show "run_steps steps ?c = Inl EmptyNodeHandle \<or>
          (\<exists>s. run_steps steps ?c = Inr s \<and>
               sentinel_present cent dflt s \<and> ts2Val s \<noteq> [] \<and> val2Ts s \<noteq> [])"
  proof (elim disjE exE conjE)
    assume "run_steps steps ?c = Inl EmptyNodeHandle"
    then show ?thesis by simp
  next
    fix s' assume r: "run_steps steps ?c = Inr s'" and k: "sentinel_kept cent dflt s'"
    from sentinel_kept_present [OF k] r show ?thesis by simp
  qed
  show "distinct (concat (map new_timestamps (calls_of steps))) \<and>
          distinct (concat (map new_values (calls_of steps))) \<longrightarrow>
          (\<exists>s. run_steps steps ?c = Inr s \<and>
               sentinel_present cent dflt s \<and> ts2Val s \<noteq> [] \<and> val2Ts s \<noteq> [] \<and>
               bijective s)"
  proof
    assume d: "distinct (concat (map new_timestamps (calls_of steps))) \<and>
          distinct (concat (map new_values (calls_of steps)))"
    then have dt: "distinct (concat (map new_timestamps (calls_of steps)))"
      and dv: "distinct (concat (map new_values (calls_of steps)))" by simp_all
    from calls_avoid_sentinel [OF assms]
    have it: "set (concat (map new_timestamps (calls_of steps))) \<inter> keys (ts2Val ?c) = {}"
      and iv: "set (concat (map new_values (calls_of steps))) \<inter> keys (val2Ts ?c) = {}"
      by (simp_all add: construct_fields)
    from construct_invariant [of cent dflt]
    have wf: "well_formed ?c" and bij: "bijective ?c" by simp_all
    from run_steps_total [OF wf bij construct_sentinel assms dt it dv iv]
    obtain s where r: "run_steps steps ?c = Inr s" and b: "bijective s"
      and k: "sentinel_kept cent dflt s" by blast
    from sentinel_kept_present [OF k] r b
    show "\<exists>s. run_steps steps ?c = Inr s \<and>
               sentinel_present cent dflt s \<and> ts2Val s \<noteq> [] \<and> val2Ts s \<noteq> [] \<and>
               bijective s" by simp
  qed
qed


theorem sentinel_kept_by_steps_witness:
  "list_all (avoids_sentinel (100::nat) (0::nat))
     [Call (AddEvent 3 1), Call (AddEvent 1 2), Arm, Wake 2, Call (AddEvent 2 3),
      Call (RemoveValue 3), Call (UpdateTimestamp 10 1), Wake 5] \<and>
   distinct (concat (map new_timestamps (calls_of
     [Call (AddEvent 3 1), Call (AddEvent 1 2), Arm, Wake 2, Call (AddEvent 2 3),
      Call (RemoveValue 3), Call (UpdateTimestamp (10::nat) (1::nat)), Wake 5]))) \<and>
   distinct (concat (map new_values (calls_of
     [Call (AddEvent 3 1), Call (AddEvent 1 2), Arm, Wake 2, Call (AddEvent 2 3),
      Call (RemoveValue 3), Call (UpdateTimestamp (10::nat) (1::nat)), Wake 5]))) \<and>
   run_steps
     [Call (AddEvent 3 1), Call (AddEvent 1 2), Arm, Wake 2, Call (AddEvent 2 3),
      Call (RemoveValue 3), Call (UpdateTimestamp 10 1), Wake 5] (construct (100::nat) (0::nat)) =
     Inr \<lparr>ts2Val = [(10, 1), (100, 0)], val2Ts = [(0, 100), (1, 10)], exit_flag = False,
          joinable = True, notified = 5,
          fired = [\<lparr>exp_ts = 1, exp_val = 2, live_ts2Val = [(1, 2), (3, 1), (100, 0)],
                    live_val2Ts = [(0, 100), (1, 3), (2, 1)]\<rparr>]\<rparr> \<and>
   sentinel_present (100::nat) (0::nat)
     \<lparr>ts2Val = [(10, 1), (100, 0)], val2Ts = [(0, 100), (1, 10)], exit_flag = False,
      joinable = True, notified = 5,
      fired = [\<lparr>exp_ts = 1, exp_val = 2, live_ts2Val = [(1, 2), (3, 1), (100, 0)],
                live_val2Ts = [(0, 100), (1, 3), (2, 1)]\<rparr>]\<rparr>"
proof -
  let ?steps = "[Call (AddEvent 3 1), Call (AddEvent 1 2), Arm, Wake 2, Call (AddEvent 2 3),
      Call (RemoveValue 3), Call (UpdateTimestamp (10::nat) (1::nat)), Wake 5]"
  have h: "\<forall>x \<in> set ?steps. avoids_sentinel (100::nat) (0::nat) x"
    by simp
  have l: "list_all (avoids_sentinel (100::nat) (0::nat)) ?steps"
    by simp
  have d: "distinct (concat (map new_timestamps (calls_of ?steps)))"
          "distinct (concat (map new_values (calls_of ?steps)))"
    by simp_all
  have ev: "run_steps ?steps (construct (100::nat) (0::nat)) =
     Inr \<lparr>ts2Val = [(10, 1), (100, 0)], val2Ts = [(0, 100), (1, 10)], exit_flag = False,
          joinable = True, notified = 5,
          fired = [\<lparr>exp_ts = 1, exp_val = 2, live_ts2Val = [(1, 2), (3, 1), (100, 0)],
                    live_val2Ts = [(0, 100), (1, 3), (2, 1)]\<rparr>]\<rparr>"
    by (simp add: construct_def addEvent_def notify_one_def removeEvent_value_def
        updateTimestamp_def wait_deadline_def wake_def drain.simps fire_front_def
        onTimestampExpire_def)
  from sentinel_kept_by_steps [OF h] l d ev show ?thesis
    by auto
qed

theorem sentinel_removed_by_value_counterexample:
  "run_steps [Call (RemoveValue 0)] (construct (100::nat) (0::nat)) =
     Inr \<lparr>ts2Val = [], val2Ts = [], exit_flag = False, joinable = True, notified = 1,
          fired = []\<rparr> \<and>
   \<not> sentinel_present (100::nat) (0::nat)
     \<lparr>ts2Val = [], val2Ts = [], exit_flag = False, joinable = True, notified = 1,
      fired = []\<rparr> \<and>
   run_steps [Call (RemoveTimestamp 100)] (construct (100::nat) (0::nat)) =
     Inr \<lparr>ts2Val = [], val2Ts = [], exit_flag = False, joinable = True, notified = 1,
          fired = []\<rparr> \<and>
   run_steps [Call (RemoveValue 0), Arm] (construct (100::nat) (0::nat)) = Inl DerefEnd"
  by (simp add: construct_def addEvent_def notify_one_def removeEvent_value_def
      removeEvent_timestamp_def sentinel_present_def wait_deadline_def)

section \<open>A pass of the drain loop\<close>

lemma erase_filter: "erase k m = filter (\<lambda>q. fst q \<noteq> k) m"
  by (induction m) auto

lemma foldl_erase_filter:
  "foldl (\<lambda>m p. erase (snd p) m) m ps = filter (\<lambda>q. fst q \<notin> snd ` set ps) m"
proof (induction ps arbitrary: m)
  case Nil
  show ?case by simp
next
  case (Cons p ps)
  have "filter (\<lambda>q. fst q \<notin> snd ` set ps) (filter (\<lambda>q. fst q \<noteq> snd p) m) =
        filter (\<lambda>q. fst q \<notin> snd ` set (p # ps)) m"
    by (induction m) auto
  with Cons.IH [of "erase (snd p) m"] show ?case
    by (simp add: erase_filter)
qed

text \<open>Every handler call of a pass is made on the entry that heads the timestamp index.\<close>

lemma drain_heads:
  "ts2Val s = due @ nxt # rest \<Longrightarrow> \<forall>p \<in> set due. fst p \<le> now \<Longrightarrow> now < fst nxt \<Longrightarrow>
   \<exists>s' new. drain now s = Inr s' \<and> fired s' = fired s @ new \<and>
     (\<forall>e \<in> set new. \<exists>tail. live_ts2Val e = (exp_ts e, exp_val e) # tail)"
proof (induction due arbitrary: s)
  case Nil
  then have "drain now s = Inr s"
    by (cases nxt) (simp add: drain_done)
  then show ?case by simp
next
  case (Cons p due)
  obtain t v where p: "p = (t, v)" by (cases p)
  let ?s = "fire_front t v s"
  from Cons.prems have ts: "ts2Val s = (t, v) # (due @ nxt # rest)" by (simp add: p)
  from Cons.prems have step: "drain now s = drain now ?s"
    by (simp add: p drain_fire)
  have "ts2Val ?s = due @ nxt # rest"
    by (simp add: fire_front_fields ts)
  from Cons.IH [OF this] Cons.prems obtain s' new where
    run: "drain now ?s = Inr s'" and f: "fired s' = fired ?s @ new"
    and heads: "\<forall>e \<in> set new. \<exists>tail. live_ts2Val e = (exp_ts e, exp_val e) # tail"
    by auto
  let ?e = "\<lparr>exp_ts = t, exp_val = v, live_ts2Val = ts2Val s, live_val2Ts = val2Ts s\<rparr>"
  have heads': "\<forall>e \<in> set (?e # new). \<exists>tail. live_ts2Val e = (exp_ts e, exp_val e) # tail"
    using heads by (simp add: ts)
  show ?case
  proof (intro exI conjI)
    show "drain now s = Inr s'" using step run by simp
    show "fired s' = fired s @ ?e # new" by (simp add: f fire_front_fields)
    show "\<forall>e \<in> set (?e # new). \<exists>tail. live_ts2Val e = (exp_ts e, exp_val e) # tail"
      by (rule heads')
  qed
qed

text \<open>A pass as a whole, on a queue that holds an entry not yet due.\<close>

lemma drain_pass:
  assumes o: "ordered (ts2Val s)" and fut: "\<exists>p \<in> set (ts2Val s). now < fst p"
  shows "\<exists>s' new. drain now s = Inr s' \<and> fired s' = fired s @ new \<and>
     map (\<lambda>e. (exp_ts e, exp_val e)) new = filter (\<lambda>p. fst p \<le> now) (ts2Val s) \<and>
     ts2Val s' = filter (\<lambda>p. now < fst p) (ts2Val s) \<and>
     val2Ts s' = filter (\<lambda>q. fst q \<notin> snd ` set (filter (\<lambda>p. fst p \<le> now) (ts2Val s)))
                   (val2Ts s) \<and>
     (\<forall>e \<in> set new.
        map_of (live_ts2Val e) (exp_ts e) = Some (exp_val e) \<and>
        exp_ts e \<notin> keys (ts2Val s') \<and> exp_val e \<notin> keys (val2Ts s')) \<and>
     (well_formed s \<and> bijective s \<longrightarrow>
        well_formed s' \<and> bijective s' \<and>
        (\<forall>e \<in> set new. map_of (live_val2Ts e) (exp_val e) = Some (exp_ts e)))"
proof -
  let ?P = "\<lambda>p. fst p \<le> now"
  let ?due = "takeWhile ?P (ts2Val s)"
  from fut have "\<exists>p \<in> set (ts2Val s). \<not> ?P p" by (auto simp: not_le)
  from split_due [OF this] obtain nxt rest where
    m: "ts2Val s = ?due @ nxt # rest" and n: "\<not> ?P nxt"
    and d: "dropWhile ?P (ts2Val s) = nxt # rest" by blast
  have due: "\<forall>p \<in> set ?due. fst p \<le> now"
    by (auto dest: set_takeWhileD)
  from n have nf: "now < fst nxt" by (simp add: not_le)
  from drain_heads [OF m due nf] obtain s' new where
    run: "drain now s = Inr s'" and f: "fired s' = fired s @ new"
    and heads: "\<forall>e \<in> set new. \<exists>tail. live_ts2Val e = (exp_ts e, exp_val e) # tail"
    by blast
  from drain_prefix [OF m due nf] run have
    A: "ts2Val s' = nxt # rest"
    and V: "val2Ts s' = foldl (\<lambda>m p. erase (snd p) m) (val2Ts s) ?due"
    and del: "delivered s' = delivered s @ ?due"
    by auto
  have tw: "?due = filter ?P (ts2Val s)" by (simp add: filter_due [OF o])
  from del f have new: "map (\<lambda>e. (exp_ts e, exp_val e)) new = ?due"
    by (simp add: delivered_def)
  have A': "ts2Val s' = filter (\<lambda>p. now < fst p) (ts2Val s)"
    by (simp add: A d [symmetric] filter_future [OF o])
  have V': "val2Ts s' = filter (\<lambda>q. fst q \<notin> snd ` set (filter ?P (ts2Val s))) (val2Ts s)"
    by (simp only: V foldl_erase_filter tw)
  from o have "distinct (map fst (ts2Val s))" by (rule ordered_distinct)
  then have "distinct (map fst (?due @ nxt # rest))" by (simp only: m [symmetric])
  then have disj: "keys ?due \<inter> keys (nxt # rest) = {}" by auto
  have each: "map_of (live_ts2Val e) (exp_ts e) = Some (exp_val e) \<and>
        exp_ts e \<notin> keys (ts2Val s') \<and> exp_val e \<notin> keys (val2Ts s')" if e: "e \<in> set new" for e
  proof (intro conjI)
    from heads e obtain tail where "live_ts2Val e = (exp_ts e, exp_val e) # tail" by blast
    then show "map_of (live_ts2Val e) (exp_ts e) = Some (exp_val e)" by simp
    from e have "(\<lambda>e. (exp_ts e, exp_val e)) e \<in> (\<lambda>e. (exp_ts e, exp_val e)) ` set new"
      by (rule imageI)
    then have "(exp_ts e, exp_val e) \<in> set (map (\<lambda>e. (exp_ts e, exp_val e)) new)"
      by simp
    then have mem: "(exp_ts e, exp_val e) \<in> set ?due" by (simp only: new)
    then have "exp_ts e \<in> keys ?due" by (rule in_keysI)
    with disj show "exp_ts e \<notin> keys (ts2Val s')" unfolding A by blast
    from mem have "exp_val e \<in> snd ` set ?due" by (metis image_eqI snd_conv)
    then show "exp_val e \<notin> keys (val2Ts s')" by (simp add: V keys_foldl_erase)
  qed
  have inv: "well_formed s' \<and> bijective s' \<and>
        (\<forall>e \<in> set new. map_of (live_val2Ts e) (exp_val e) = Some (exp_ts e))"
    if wb: "well_formed s \<and> bijective s"
  proof -
    from wb have wf: "well_formed s" and bij: "bijective s" by simp_all
    from drain_snapshots [OF wf bij m due nf] obtain s2 new2 where
      run2: "drain now s = Inr s2" and f2: "fired s2 = fired s @ new2"
      and snap: "\<forall>e \<in> set new2. map_of (live_ts2Val e) (exp_ts e) = Some (exp_val e) \<and>
                     map_of (live_val2Ts e) (exp_val e) = Some (exp_ts e)"
      and inv2: "well_formed s2" "bijective s2" by blast
    from run run2 have "s2 = s'" by simp
    with f f2 have "new2 = new" by simp
    with snap inv2 \<open>s2 = s'\<close> show ?thesis by simp
  qed
  show ?thesis
  proof (intro exI conjI)
    show "drain now s = Inr s'" by (rule run)
    show "fired s' = fired s @ new" by (rule f)
    show "map (\<lambda>e. (exp_ts e, exp_val e)) new = filter ?P (ts2Val s)"
      using new tw by simp
    show "ts2Val s' = filter (\<lambda>p. now < fst p) (ts2Val s)" by (rule A')
    show "val2Ts s' = filter (\<lambda>q. fst q \<notin> snd ` set (filter ?P (ts2Val s))) (val2Ts s)"
      by (rule V')
    show "\<forall>e \<in> set new.
        map_of (live_ts2Val e) (exp_ts e) = Some (exp_val e) \<and>
        exp_ts e \<notin> keys (ts2Val s') \<and> exp_val e \<notin> keys (val2Ts s')"
      using each by blast
    show "well_formed s \<and> bijective s \<longrightarrow>
        well_formed s' \<and> bijective s' \<and>
        (\<forall>e \<in> set new. map_of (live_val2Ts e) (exp_val e) = Some (exp_ts e))"
      using inv by blast
  qed
qed

lemma add_all_val_keys:
  "keys (val2Ts (fold (\<lambda>(t, v). addEvent t v) evs s)) = keys (val2Ts s) \<union> snd ` set evs"
proof (induction evs arbitrary: s)
  case Nil
  show ?case by simp
next
  case (Cons p evs)
  obtain t v where p: "p = (t, v)" by (cases p)
  have "keys (val2Ts (addEvent t v s)) = insert v (keys (val2Ts s))"
    by (simp add: addEvent_def notify_one_def keys_emplace)
  with Cons.IH [of "addEvent t v s"] show ?case by (simp add: p)
qed

lemma add_all_exit_flag:
  "exit_flag (fold (\<lambda>(t, v). addEvent t v) evs s) = exit_flag s"
proof (induction evs arbitrary: s)
  case Nil
  show ?case by simp
next
  case (Cons p evs)
  obtain t v where p: "p = (t, v)" by (cases p)
  have "exit_flag (addEvent t v s) = exit_flag s" by (simp add: addEvent_def notify_one_def)
  with Cons.IH [of "addEvent t v s"] show ?case by (simp add: p)
qed

lemma run_steps_adds:
  "run_steps (map (\<lambda>(t, v). Call (AddEvent t v)) evs @ rest) s =
   run_steps rest (fold (\<lambda>(t, v). addEvent t v) evs s)"
proof (induction evs arbitrary: s)
  case Nil
  show ?case by simp
next
  case (Cons p evs)
  obtain t v where p: "p = (t, v)" by (cases p)
  from Cons.IH [of "addEvent t v s"] show ?case by (simp add: p)
qed

lemma fresh_queue_drained:
  assumes "distinct (cent # map fst evs)" and "now < cent"
  shows "\<exists>s'. drain now (fold (\<lambda>(t, v). addEvent t v) evs (construct cent dflt)) = Inr s' \<and>
           sorted_wrt (<) (map fst (delivered s')) \<and>
           set (delivered s') = {p \<in> set evs. fst p \<le> now} \<and>
           sorted_wrt (<) (map fst (ts2Val s')) \<and>
           set (ts2Val s') = {p \<in> insert (cent, dflt) (set evs). now < fst p} \<and>
           keys (val2Ts s') = insert dflt (snd ` set evs) - snd ` set (delivered s')"
proof -
  let ?s = "fold (\<lambda>(t, v). addEvent t v) evs (construct cent dflt)"
  let ?A = "ts2Val ?s"
  let ?due = "\<lambda>p. fst p \<le> now"
  have "ordered ?A \<and> set ?A = set (ts2Val (construct cent dflt)) \<union> set evs"
    using assms(1) by (intro add_all_ts2Val) (auto simp: construct_fields ordered_def)
  then have oA: "ordered ?A" and sA: "set ?A = insert (cent, dflt) (set evs)"
    by (simp_all add: construct_fields)
  have "\<exists>p \<in> set ?A. now < fst p"
    using sA assms(2) by auto
  from drain_future [OF this] obtain s' where
    run: "drain now ?s = Inr s'"
    and rest: "ts2Val s' = dropWhile ?due ?A"
    and vals: "val2Ts s' = foldl (\<lambda>m p. erase (snd p) m) (val2Ts ?s) (takeWhile ?due ?A)"
    and del: "delivered s' = delivered ?s @ takeWhile ?due ?A"
    by blast
  have "delivered ?s = []"
    by (simp add: delivered_def add_all_other construct_fields)
  with del oA have del': "delivered s' = filter ?due ?A"
    by (simp add: filter_due)
  from rest oA have rest': "ts2Val s' = filter (\<lambda>p. now < fst p) ?A"
    by (simp add: filter_future)
  have a: "sorted_wrt (<) (map fst (delivered s'))"
    using ordered_filter [OF oA, of ?due] by (simp add: del' ordered_def)
  have b: "set (delivered s') = {p \<in> set evs. fst p \<le> now}"
    using assms(2) by (auto simp: del' sA)
  have c: "sorted_wrt (<) (map fst (ts2Val s'))"
    using ordered_filter [OF oA, of "\<lambda>p. now < fst p"] by (simp add: rest' ordered_def)
  have d: "set (ts2Val s') = {p \<in> insert (cent, dflt) (set evs). now < fst p}"
    by (auto simp: rest' sA)
  have "keys (val2Ts ?s) = keys (val2Ts (construct cent dflt)) \<union> snd ` set evs"
    by (rule add_all_val_keys)
  then have kV: "keys (val2Ts ?s) = insert dflt (snd ` set evs)"
    by (simp add: construct_fields)
  from del \<open>delivered ?s = []\<close> have "takeWhile ?due ?A = delivered s'" by simp
  then have "k \<in> keys (val2Ts s') \<longleftrightarrow> k \<in> keys (val2Ts ?s) \<and> k \<notin> snd ` set (delivered s')" for k
    by (simp only: vals keys_foldl_erase)
  then have e: "keys (val2Ts s') = insert dflt (snd ` set evs) - snd ` set (delivered s')"
    unfolding kV by blast
  from run a b c d e show ?thesis by blast
qed

text \<open>
  C2. On a queue whose timestamp index holds an entry that is not due yet, a
  pass of the drain loop returns. In the order of the timestamp index it has
  taken every entry whose timestamp is not after \<open>current_time\<close>, called the
  handler on it while the entry was still stored, and erased it afterwards; the
  timestamp index is left with exactly the entries whose timestamp is in the
  future, and the value index with exactly the entries whose key is not a
  delivered value. So, when events with pairwise distinct timestamps, none of
  them the sentinel's, are added to a fresh queue in whatever order with no turn
  of the worker in between, and the worker then wakes before the sentinel's
  timestamp, that pass calls the handler on exactly the events that are due, in
  strictly ascending order of their timestamps (hence once each), and keeps the
  others in both indices.
\<close>

theorem due_events_delivered_in_timestamp_order:
  "(ordered (ts2Val (s :: ('t::linorder, 'v::linorder) queue)) \<and> (\<exists>p \<in> set (ts2Val s). now < fst p) \<longrightarrow>
      (\<exists>s' new. drain now s = Inr s' \<and> fired s' = fired s @ new \<and>
         delivered s' = delivered s @ filter (\<lambda>p. fst p \<le> now) (ts2Val s) \<and>
         (\<forall>e \<in> set new. map_of (live_ts2Val e) (exp_ts e) = Some (exp_val e)) \<and>
         ts2Val s' = filter (\<lambda>p. now < fst p) (ts2Val s) \<and>
         val2Ts s' = filter (\<lambda>q. fst q \<notin> snd ` set (filter (\<lambda>p. fst p \<le> now) (ts2Val s)))
                       (val2Ts s))) \<and>
   (distinct (cent # map fst evs) \<and> now < cent \<longrightarrow>
      (\<exists>s'. run_steps (map (\<lambda>(t, v). Call (AddEvent t v)) evs @ [Wake now])
                (construct cent dflt) = Inr s' \<and>
         sorted_wrt (<) (map fst (delivered s')) \<and>
         set (delivered s') = {p \<in> set evs. fst p \<le> now} \<and>
         sorted_wrt (<) (map fst (ts2Val s')) \<and>
         set (ts2Val s') = {p \<in> insert (cent, dflt) (set evs). now < fst p} \<and>
         keys (val2Ts s') = insert dflt (snd ` set evs) - snd ` set (delivered s')))"
proof (intro conjI impI)
  assume h: "ordered (ts2Val s) \<and> (\<exists>p \<in> set (ts2Val s). now < fst p)"
  then have o: "ordered (ts2Val s)" and f: "\<exists>p \<in> set (ts2Val s). now < fst p" by simp_all
  from drain_pass [OF o f] obtain s' new where
    run: "drain now s = Inr s'" and fi: "fired s' = fired s @ new"
    and new: "map (\<lambda>e. (exp_ts e, exp_val e)) new = filter (\<lambda>p. fst p \<le> now) (ts2Val s)"
    and A: "ts2Val s' = filter (\<lambda>p. now < fst p) (ts2Val s)"
    and V: "val2Ts s' = filter (\<lambda>q. fst q \<notin> snd ` set (filter (\<lambda>p. fst p \<le> now) (ts2Val s)))
                   (val2Ts s)"
    and each: "\<forall>e \<in> set new.
        map_of (live_ts2Val e) (exp_ts e) = Some (exp_val e) \<and>
        exp_ts e \<notin> keys (ts2Val s') \<and> exp_val e \<notin> keys (val2Ts s')"
    by blast
  show "\<exists>s' new. drain now s = Inr s' \<and> fired s' = fired s @ new \<and>
         delivered s' = delivered s @ filter (\<lambda>p. fst p \<le> now) (ts2Val s) \<and>
         (\<forall>e \<in> set new. map_of (live_ts2Val e) (exp_ts e) = Some (exp_val e)) \<and>
         ts2Val s' = filter (\<lambda>p. now < fst p) (ts2Val s) \<and>
         val2Ts s' = filter (\<lambda>q. fst q \<notin> snd ` set (filter (\<lambda>p. fst p \<le> now) (ts2Val s)))
                       (val2Ts s)"
  proof (intro exI conjI)
    show "drain now s = Inr s'" by (rule run)
    show "fired s' = fired s @ new" by (rule fi)
    show "delivered s' = delivered s @ filter (\<lambda>p. fst p \<le> now) (ts2Val s)"
      using new by (simp add: delivered_def fi)
    show "\<forall>e \<in> set new. map_of (live_ts2Val e) (exp_ts e) = Some (exp_val e)"
      using each by blast
    show "ts2Val s' = filter (\<lambda>p. now < fst p) (ts2Val s)" by (rule A)
    show "val2Ts s' = filter (\<lambda>q. fst q \<notin> snd ` set (filter (\<lambda>p. fst p \<le> now) (ts2Val s)))
                       (val2Ts s)" by (rule V)
  qed
next
  assume "distinct (cent # map fst evs) \<and> now < cent"
  then have d: "distinct (cent # map fst evs)" and n: "now < cent" by simp_all
  let ?s = "fold (\<lambda>(t, v). addEvent t v) evs (construct cent dflt)"
  have "exit_flag ?s = False"
    by (simp add: add_all_exit_flag construct_fields)
  then have "run_steps (map (\<lambda>(t, v). Call (AddEvent t v)) evs @ [Wake now])
                (construct cent dflt) = drain now ?s"
    by (simp add: run_steps_adds wake_def split: sum.splits)
  with fresh_queue_drained [OF d n, of dflt]
  show "\<exists>s'. run_steps (map (\<lambda>(t, v). Call (AddEvent t v)) evs @ [Wake now])
                (construct cent dflt) = Inr s' \<and>
         sorted_wrt (<) (map fst (delivered s')) \<and>
         set (delivered s') = {p \<in> set evs. fst p \<le> now} \<and>
         sorted_wrt (<) (map fst (ts2Val s')) \<and>
         set (ts2Val s') = {p \<in> insert (cent, dflt) (set evs). now < fst p} \<and>
         keys (val2Ts s') = insert dflt (snd ` set evs) - snd ` set (delivered s')"
    by simp
qed

theorem due_events_delivered_in_timestamp_order_witness:
  "distinct ((100::nat) # map fst [(3, 1::nat), (1, 2), (7, 4), (2, 3)]) \<and> (5::nat) < 100 \<and>
   run_steps (map (\<lambda>(t, v). Call (AddEvent t v)) [(3, 1), (1, 2), (7, 4), (2, 3)] @ [Wake 5])
     (construct (100::nat) (0::nat)) =
     Inr \<lparr>ts2Val = [(7, 4), (100, 0)], val2Ts = [(0, 100), (4, 7)], exit_flag = False,
          joinable = True, notified = 5,
          fired = [\<lparr>exp_ts = 1, exp_val = 2,
                    live_ts2Val = [(1, 2), (2, 3), (3, 1), (7, 4), (100, 0)],
                    live_val2Ts = [(0, 100), (1, 3), (2, 1), (3, 2), (4, 7)]\<rparr>,
                   \<lparr>exp_ts = 2, exp_val = 3,
                    live_ts2Val = [(2, 3), (3, 1), (7, 4), (100, 0)],
                    live_val2Ts = [(0, 100), (1, 3), (3, 2), (4, 7)]\<rparr>,
                   \<lparr>exp_ts = 3, exp_val = 1,
                    live_ts2Val = [(3, 1), (7, 4), (100, 0)],
                    live_val2Ts = [(0, 100), (1, 3), (4, 7)]\<rparr>]\<rparr> \<and>
   map_sum id delivered
     (run_steps (map (\<lambda>(t, v). Call (AddEvent t v)) [(2, 3), (7, 4), (3, 1), (1, 2)] @ [Wake 5])
        (construct (100::nat) (0::nat))) = Inr [(1, 2), (2, 3), (3, 1)] \<and>
   ordered [(1::nat, 2::nat), (2, 3), (3, 1), (7, 4), (100, 0)] \<and>
   (100::nat, 0::nat) \<in> set [(1, 2), (2, 3), (3, 1), (7, 4), (100, 0)]"
proof -
  have h: "distinct ((100::nat) # map fst [(3, 1::nat), (1, 2), (7, 4), (2, 3)]) \<and> (5::nat) < 100"
    by simp
  let ?q = "\<lparr>ts2Val = [(1, 2), (2, 3), (3, 1), (7, 4), (100::nat, 0::nat)],
       val2Ts = [(0, 100), (1, 3), (2, 1), (3, 2), (4, 7)],
       exit_flag = False, joinable = True, notified = 5, fired = []\<rparr>"
  have o: "ordered (ts2Val ?q) \<and> (\<exists>p \<in> set (ts2Val ?q). 5 < fst p)"
    by (simp add: ordered_def)
  have r1: "run_steps (map (\<lambda>(t, v). Call (AddEvent t v)) [(3, 1), (1, 2), (7, 4), (2, 3)] @ [Wake 5])
     (construct (100::nat) (0::nat)) =
     Inr \<lparr>ts2Val = [(7, 4), (100, 0)], val2Ts = [(0, 100), (4, 7)], exit_flag = False,
          joinable = True, notified = 5,
          fired = [\<lparr>exp_ts = 1, exp_val = 2,
                    live_ts2Val = [(1, 2), (2, 3), (3, 1), (7, 4), (100, 0)],
                    live_val2Ts = [(0, 100), (1, 3), (2, 1), (3, 2), (4, 7)]\<rparr>,
                   \<lparr>exp_ts = 2, exp_val = 3,
                    live_ts2Val = [(2, 3), (3, 1), (7, 4), (100, 0)],
                    live_val2Ts = [(0, 100), (1, 3), (3, 2), (4, 7)]\<rparr>,
                   \<lparr>exp_ts = 3, exp_val = 1,
                    live_ts2Val = [(3, 1), (7, 4), (100, 0)],
                    live_val2Ts = [(0, 100), (1, 3), (4, 7)]\<rparr>]\<rparr>"
    by (simp add: construct_def addEvent_def notify_one_def wake_def drain.simps fire_front_def
        onTimestampExpire_def)
  have r2: "map_sum id delivered
     (run_steps (map (\<lambda>(t, v). Call (AddEvent t v)) [(2, 3), (7, 4), (3, 1), (1, 2)] @ [Wake 5])
        (construct (100::nat) (0::nat))) = Inr [(1, 2), (2, 3), (3, 1)]"
    by (simp add: construct_def addEvent_def notify_one_def wake_def drain.simps fire_front_def
        onTimestampExpire_def delivered_def)
  have m: "ordered [(1::nat, 2::nat), (2, 3), (3, 1), (7, 4), (100, 0)] \<and>
   (100::nat, 0::nat) \<in> set [(1, 2), (2, 3), (3, 1), (7, 4), (100, 0)]"
    by (simp add: ordered_def)
  note pass = due_events_delivered_in_timestamp_order
    [of ?q 5 100 "[(3, 1), (1, 2), (7, 4), (2, 3)]" 0, THEN conjunct1, THEN mp, OF o]
  note sched = due_events_delivered_in_timestamp_order
    [of ?q 5 100 "[(3, 1), (1, 2), (7, 4), (2, 3)]" 0, THEN conjunct2, THEN mp, OF h]
  from pass sched h r1 r2 m show ?thesis
    by (simp only: simp_thms)
qed

theorem already_due_events_in_insertion_order_counterexample:
  "map_sum id delivered
     (run_steps [Call (AddEvent 3 1), Wake 5, Call (AddEvent 1 2), Wake 5, Call (AddEvent 2 3), Wake 5]
        (construct (100::nat) (0::nat))) = Inr [(3, 1), (1, 2), (2, 3)] \<and>
   \<not> sorted_wrt (<) (map fst [(3::nat, 1::nat), (1, 2), (2, 3)]) \<and>
   run_steps [Call (RemoveValue 0), Call (AddEvent 1 7), Wake 5] (construct (100::nat) (0::nat)) =
     Inl DerefEnd"
  by (simp add: construct_def addEvent_def notify_one_def removeEvent_value_def wake_def
      drain.simps fire_front_def onTimestampExpire_def delivered_def)

section \<open>The order of firing\<close>

text \<open>
  C5. Firing is deliver-then-remove, under the lock. Whenever the entry that
  heads the timestamp index is due, the loop calls the handler with the
  timestamp and the value of that entry while both indices are still as they
  were, the entry heading the timestamp index; only when the handler has
  returned is the value erased from \<open>_val2Ts\<close> and the entry from \<open>_ts2Val\<close>, and
  the loop goes on from there. So, in a pass on a queue that holds an entry not
  yet due, every delivered pair is still in the timestamp index at the moment of
  its handler call, and when the pass is over its timestamp is in \<open>_ts2Val\<close> no
  more and its value is in \<open>_val2Ts\<close> no more. When the indices are in bijection
  before the pass, the pair is in the value index as well at the moment of the
  call, and the indices are in bijection again after the pass.
\<close>

theorem handler_called_before_erase:
  "(ts2Val s = (t, v) # rest \<and> t \<le> now \<longrightarrow>
      drain now s = drain now (fire_front t v s) \<and>
      fired (fire_front t v s) =
        fired s @ [\<lparr>exp_ts = t, exp_val = v, live_ts2Val = (t, v) # rest,
                    live_val2Ts = val2Ts s\<rparr>] \<and>
      ts2Val (fire_front t v s) = rest \<and>
      val2Ts (fire_front t v s) = filter (\<lambda>q. fst q \<noteq> v) (val2Ts s)) \<and>
   (ordered (ts2Val s) \<and> (\<exists>p \<in> set (ts2Val s). now < fst p) \<longrightarrow>
      (\<exists>s' new. drain now s = Inr s' \<and> fired s' = fired s @ new \<and>
         map (\<lambda>e. (exp_ts e, exp_val e)) new = filter (\<lambda>p. fst p \<le> now) (ts2Val s) \<and>
         (\<forall>e \<in> set new.
            map_of (live_ts2Val e) (exp_ts e) = Some (exp_val e) \<and>
            exp_ts e \<notin> keys (ts2Val s') \<and> exp_val e \<notin> keys (val2Ts s')) \<and>
         (well_formed s \<and> bijective s \<longrightarrow>
            well_formed s' \<and> bijective s' \<and>
            (\<forall>e \<in> set new. map_of (live_val2Ts e) (exp_val e) = Some (exp_ts e)))))"
proof (intro conjI impI)
  assume h: "ts2Val s = (t, v) # rest \<and> t \<le> now"
  then show "drain now s = drain now (fire_front t v s)"
    by (simp add: drain_fire)
  from h show "fired (fire_front t v s) =
        fired s @ [\<lparr>exp_ts = t, exp_val = v, live_ts2Val = (t, v) # rest,
                    live_val2Ts = val2Ts s\<rparr>]"
    by (simp add: fire_front_fields)
  from h show "ts2Val (fire_front t v s) = rest"
    by (simp add: fire_front_fields)
  show "val2Ts (fire_front t v s) = filter (\<lambda>q. fst q \<noteq> v) (val2Ts s)"
    by (simp add: fire_front_fields erase_filter)
next
  assume "ordered (ts2Val s) \<and> (\<exists>p \<in> set (ts2Val s). now < fst p)"
  then have o: "ordered (ts2Val s)" and f: "\<exists>p \<in> set (ts2Val s). now < fst p" by simp_all
  from drain_pass [OF o f] obtain s' new where
    run: "drain now s = Inr s'" and fi: "fired s' = fired s @ new"
    and new: "map (\<lambda>e. (exp_ts e, exp_val e)) new = filter (\<lambda>p. fst p \<le> now) (ts2Val s)"
    and each: "\<forall>e \<in> set new.
        map_of (live_ts2Val e) (exp_ts e) = Some (exp_val e) \<and>
        exp_ts e \<notin> keys (ts2Val s') \<and> exp_val e \<notin> keys (val2Ts s')"
    and inv: "well_formed s \<and> bijective s \<longrightarrow>
        well_formed s' \<and> bijective s' \<and>
        (\<forall>e \<in> set new. map_of (live_val2Ts e) (exp_val e) = Some (exp_ts e))"
    by blast
  show "\<exists>s' new. drain now s = Inr s' \<and> fired s' = fired s @ new \<and>
         map (\<lambda>e. (exp_ts e, exp_val e)) new = filter (\<lambda>p. fst p \<le> now) (ts2Val s) \<and>
         (\<forall>e \<in> set new.
            map_of (live_ts2Val e) (exp_ts e) = Some (exp_val e) \<and>
            exp_ts e \<notin> keys (ts2Val s') \<and> exp_val e \<notin> keys (val2Ts s')) \<and>
         (well_formed s \<and> bijective s \<longrightarrow>
            well_formed s' \<and> bijective s' \<and>
            (\<forall>e \<in> set new. map_of (live_val2Ts e) (exp_val e) = Some (exp_ts e)))"
  proof (intro exI conjI)
    show "drain now s = Inr s'" by (rule run)
    show "fired s' = fired s @ new" by (rule fi)
    show "map (\<lambda>e. (exp_ts e, exp_val e)) new = filter (\<lambda>p. fst p \<le> now) (ts2Val s)"
      by (rule new)
    show "\<forall>e \<in> set new.
            map_of (live_ts2Val e) (exp_ts e) = Some (exp_val e) \<and>
            exp_ts e \<notin> keys (ts2Val s') \<and> exp_val e \<notin> keys (val2Ts s')" by (rule each)
    show "well_formed s \<and> bijective s \<longrightarrow>
            well_formed s' \<and> bijective s' \<and>
            (\<forall>e \<in> set new. map_of (live_val2Ts e) (exp_val e) = Some (exp_ts e))" by (rule inv)
  qed
qed

theorem handler_called_before_erase_witness:
  "ts2Val (addEvent 1 7 (construct (100::nat) (0::nat))) = (1, 7) # [(100, 0)] \<and> (1::nat) \<le> 5 \<and>
   ordered (ts2Val (addEvent 1 7 (construct (100::nat) (0::nat)))) \<and>
   (100, 0) \<in> set (ts2Val (addEvent 1 7 (construct (100::nat) (0::nat)))) \<and> (5::nat) < 100 \<and>
   well_formed (addEvent 1 7 (construct (100::nat) (0::nat))) \<and>
   bijective (addEvent 1 7 (construct (100::nat) (0::nat))) \<and>
   drain 5 (addEvent 1 7 (construct (100::nat) (0::nat))) =
     Inr \<lparr>ts2Val = [(100, 0)], val2Ts = [(0, 100)], exit_flag = False, joinable = True,
          notified = 2,
          fired = [\<lparr>exp_ts = 1, exp_val = 7, live_ts2Val = [(1, 7), (100, 0)],
                    live_val2Ts = [(0, 100), (7, 1)]\<rparr>]\<rparr> \<and>
   bijective \<lparr>ts2Val = [(100::nat, 0::nat)], val2Ts = [(0, 100)], exit_flag = False,
          joinable = True, notified = 2,
          fired = [\<lparr>exp_ts = 1, exp_val = 7, live_ts2Val = [(1, 7), (100, 0)],
                    live_val2Ts = [(0, 100), (7, 1)]\<rparr>]\<rparr> \<and>
   ordered (ts2Val (addEvent 1 0 (construct (100::nat) (0::nat)))) \<and>
   (100, 0) \<in> set (ts2Val (addEvent 1 0 (construct (100::nat) (0::nat)))) \<and>
   \<not> bijective (addEvent 1 0 (construct (100::nat) (0::nat))) \<and>
   drain 5 (addEvent 1 0 (construct (100::nat) (0::nat))) =
     Inr \<lparr>ts2Val = [(100, 0)], val2Ts = [], exit_flag = False, joinable = True,
          notified = 2,
          fired = [\<lparr>exp_ts = 1, exp_val = 0, live_ts2Val = [(1, 0), (100, 0)],
                    live_val2Ts = [(0, 100)]\<rparr>]\<rparr>"
proof -
  let ?s = "addEvent 1 7 (construct (100::nat) (0::nat))"
  let ?u = "addEvent 1 0 (construct (100::nat) (0::nat))"
  have st: "?s = \<lparr>ts2Val = [(1, 7), (100, 0)], val2Ts = [(0, 100), (7, 1)], exit_flag = False,
          joinable = True, notified = 2, fired = []\<rparr>"
    by (simp add: construct_def addEvent_def notify_one_def)
  have su: "?u = \<lparr>ts2Val = [(1, 0), (100, 0)], val2Ts = [(0, 100)], exit_flag = False,
          joinable = True, notified = 2, fired = []\<rparr>"
    by (simp add: construct_def addEvent_def notify_one_def)
  have hd: "ts2Val ?s = (1, 7) # [(100, 0)] \<and> (1::nat) \<le> 5"
    unfolding st by simp
  have wf: "well_formed ?s"
    unfolding st by (simp add: well_formed_def ordered_def)
  have bij: "bijective ?s"
    unfolding st by (simp add: bijective_def)
  have o: "ordered (ts2Val ?s)"
    unfolding st by (simp add: ordered_def)
  have fut: "\<exists>p \<in> set (ts2Val ?s). 5 < fst p"
    unfolding st by simp
  have mem: "(100, 0) \<in> set (ts2Val ?s)"
    unfolding st by simp
  have ev: "drain 5 ?s =
     Inr \<lparr>ts2Val = [(100, 0)], val2Ts = [(0, 100)], exit_flag = False, joinable = True,
          notified = 2,
          fired = [\<lparr>exp_ts = 1, exp_val = 7, live_ts2Val = [(1, 7), (100, 0)],
                    live_val2Ts = [(0, 100), (7, 1)]\<rparr>]\<rparr>"
    unfolding st by (simp add: drain.simps fire_front_def onTimestampExpire_def)
  have ou: "ordered (ts2Val ?u)" "(100, 0) \<in> set (ts2Val ?u)" "\<not> bijective ?u"
    unfolding su by (simp_all add: ordered_def bijective_def)
  have eu: "drain 5 ?u =
     Inr \<lparr>ts2Val = [(100, 0)], val2Ts = [], exit_flag = False, joinable = True,
          notified = 2,
          fired = [\<lparr>exp_ts = 1, exp_val = 0, live_ts2Val = [(1, 0), (100, 0)],
                    live_val2Ts = [(0, 100)]\<rparr>]\<rparr>"
    unfolding su by (simp add: drain.simps fire_front_def onTimestampExpire_def)
  from handler_called_before_erase [of ?s 1 7 "[(100, 0)]" 5] hd o fut wf bij
  have "\<exists>s'. drain 5 ?s = Inr s' \<and> bijective s'" by blast
  with ev have "bijective \<lparr>ts2Val = [(100::nat, 0::nat)], val2Ts = [(0, 100)], exit_flag = False,
          joinable = True, notified = 2,
          fired = [\<lparr>exp_ts = 1, exp_val = 7, live_ts2Val = [(1, 7), (100, 0)],
                    live_val2Ts = [(0, 100), (7, 1)]\<rparr>]\<rparr>" by simp
  with hd o mem wf bij ev ou eu show ?thesis by simp
qed

theorem handler_called_on_stored_event_counterexample:
  "drain 5 (addEvent 1 7 (construct (100::nat) (0::nat))) =
     Inr \<lparr>ts2Val = [(100, 0)], val2Ts = [(0, 100)], exit_flag = False, joinable = True,
          notified = 2,
          fired = [\<lparr>exp_ts = 1, exp_val = 7, live_ts2Val = [(1, 7), (100, 0)],
                    live_val2Ts = [(0, 100), (7, 1)]\<rparr>]\<rparr> \<and>
   map_sum id
     (\<lambda>s'. map (\<lambda>e. (map_of (live_ts2Val e) (exp_ts e) = Some (exp_val e),
                       map_of (live_val2Ts e) (exp_val e) = Some (exp_ts e))) (fired s'))
     (drain 5 (addEvent 1 7 (construct (100::nat) (0::nat)))) = Inr [(True, True)]"
  by (simp add: construct_def addEvent_def notify_one_def drain.simps fire_front_def
      onTimestampExpire_def)

section \<open>The bijection under calls and turns of the worker\<close>

lemma calls_of_append: "calls_of (xs @ ys) = calls_of xs @ calls_of ys"
  by (induction xs rule: calls_of.induct) simp_all

text \<open>
  C1. Take any sequence of \<open>addEvent\<close>, \<open>removeEvent\<close>, \<open>updateValue\<close> and
  \<open>updateTimestamp\<close> calls on a freshly constructed queue, interleaved in any
  way with turns of the worker thread, in which no call has the sentinel's
  timestamp or the sentinel's value \<open>T()\<close> among its arguments, the worker wakes
  only before the sentinel's timestamp, the submitted timestamps are pairwise
  distinct and the submitted values are pairwise distinct. Then every call and
  every turn of the worker completes, and after each of them (after every
  prefix of the sequence) the two indices are in bijection.
\<close>

theorem bijection_kept_by_calls:
  assumes "\<forall>x \<in> set steps. avoids_sentinel cent dflt x"
    and "distinct (concat (map new_timestamps (calls_of steps)))"
    and "distinct (concat (map new_values (calls_of steps)))"
  shows "\<exists>s. run_steps (take n steps) (construct cent dflt) = Inr s \<and> bijective s"
proof -
  let ?pre = "take n steps" and ?c = "construct cent dflt"
  have av: "\<forall>x \<in> set ?pre. avoids_sentinel cent dflt x"
    using assms(1) by (auto dest: in_set_takeD)
  have "calls_of steps = calls_of ?pre @ calls_of (drop n steps)"
    by (metis append_take_drop_id calls_of_append)
  then have split: "concat (map f (calls_of steps)) =
      concat (map f (calls_of ?pre)) @ concat (map f (calls_of (drop n steps)))"
    for f :: "('a, 'b) call \<Rightarrow> 'c list"
    by simp
  from assms(2) have dt: "distinct (concat (map new_timestamps (calls_of ?pre)))"
    unfolding split [of new_timestamps] by simp
  from assms(3) have dv: "distinct (concat (map new_values (calls_of ?pre)))"
    unfolding split [of new_values] by simp
  from calls_avoid_sentinel [OF av]
  have it: "set (concat (map new_timestamps (calls_of ?pre))) \<inter> keys (ts2Val ?c) = {}"
    and iv: "set (concat (map new_values (calls_of ?pre))) \<inter> keys (val2Ts ?c) = {}"
    by (simp_all add: construct_fields)
  from construct_invariant [of cent dflt]
  have wf: "well_formed ?c" and bij: "bijective ?c" by simp_all
  from run_steps_total [OF wf bij construct_sentinel av dt it dv iv]
  obtain s where "run_steps ?pre ?c = Inr s" and "bijective s" by blast
  then show ?thesis by blast
qed

theorem bijection_kept_by_calls_witness:
  "list_all (avoids_sentinel (100::nat) (0::nat))
     [Call (AddEvent 3 1), Arm, Call (AddEvent 1 2), Call (AddEvent 2 3), Call (AddEvent 4 4),
      Call (RemoveValue 2), Wake 0, Call (RemoveTimestamp 2), Call (UpdateValue 4 5),
      Call (UpdateTimestamp 10 1), Arm, Wake 6] \<and>
   distinct (concat (map new_timestamps (calls_of
     [Call (AddEvent 3 1), Arm, Call (AddEvent 1 2), Call (AddEvent 2 3), Call (AddEvent 4 4),
      Call (RemoveValue 2), Wake 0, Call (RemoveTimestamp 2), Call (UpdateValue 4 5),
      Call (UpdateTimestamp (10::nat) (1::nat)), Arm, Wake 6]))) \<and>
   distinct (concat (map new_values (calls_of
     [Call (AddEvent 3 1), Arm, Call (AddEvent 1 2), Call (AddEvent 2 3), Call (AddEvent 4 4),
      Call (RemoveValue 2), Wake 0, Call (RemoveTimestamp 2), Call (UpdateValue 4 5),
      Call (UpdateTimestamp (10::nat) (1::nat)), Arm, Wake 6]))) \<and>
   run_steps
     [Call (AddEvent 3 1), Arm, Call (AddEvent 1 2), Call (AddEvent 2 3), Call (AddEvent 4 4),
      Call (RemoveValue 2), Wake 0, Call (RemoveTimestamp 2), Call (UpdateValue 4 5),
      Call (UpdateTimestamp 10 1), Arm, Wake 6] (construct (100::nat) (0::nat)) =
     Inr \<lparr>ts2Val = [(10, 1), (100, 0)], val2Ts = [(0, 100), (1, 10)], exit_flag = False,
          joinable = True, notified = 7,
          fired = [\<lparr>exp_ts = 4, exp_val = 5, live_ts2Val = [(4, 5), (10, 1), (100, 0)],
                    live_val2Ts = [(0, 100), (1, 10), (5, 4)]\<rparr>]\<rparr> \<and>
   bijective \<lparr>ts2Val = [(10, 1), (100::nat, 0::nat)], val2Ts = [(0, 100), (1, 10)],
          exit_flag = False, joinable = True, notified = 7,
          fired = [\<lparr>exp_ts = 4, exp_val = 5, live_ts2Val = [(4, 5), (10, 1), (100, 0)],
                    live_val2Ts = [(0, 100), (1, 10), (5, 4)]\<rparr>]\<rparr>"
proof -
  let ?steps = "[Call (AddEvent 3 1), Arm, Call (AddEvent 1 2), Call (AddEvent 2 3),
      Call (AddEvent 4 4), Call (RemoveValue 2), Wake 0, Call (RemoveTimestamp 2),
      Call (UpdateValue 4 5), Call (UpdateTimestamp (10::nat) (1::nat)), Arm, Wake 6]"
  have h: "\<forall>x \<in> set ?steps. avoids_sentinel (100::nat) (0::nat) x"
    by simp
  have l: "list_all (avoids_sentinel (100::nat) (0::nat)) ?steps"
    by simp
  have d: "distinct (concat (map new_timestamps (calls_of ?steps)))"
          "distinct (concat (map new_values (calls_of ?steps)))"
    by simp_all
  have ev: "run_steps ?steps (construct (100::nat) (0::nat)) =
     Inr \<lparr>ts2Val = [(10, 1), (100, 0)], val2Ts = [(0, 100), (1, 10)], exit_flag = False,
          joinable = True, notified = 7,
          fired = [\<lparr>exp_ts = 4, exp_val = 5, live_ts2Val = [(4, 5), (10, 1), (100, 0)],
                    live_val2Ts = [(0, 100), (1, 10), (5, 4)]\<rparr>]\<rparr>"
    by (simp add: construct_def addEvent_def notify_one_def removeEvent_value_def
        removeEvent_timestamp_def updateValue_def updateTimestamp_def wait_deadline_def
        wake_def drain.simps fire_front_def onTimestampExpire_def)
  from bijection_kept_by_calls [OF h d, of 12] l d ev show ?thesis
    by auto
qed

theorem sentinel_value_breaks_bijection_counterexample:
  "distinct (concat (map new_timestamps [AddEvent (1::nat) (0::nat)])) \<and>
   distinct (concat (map new_values [AddEvent (1::nat) (0::nat)])) \<and>
   bijective (construct (100::nat) (0::nat)) \<and>
   run_calls [AddEvent 1 0] (construct (100::nat) (0::nat)) =
     Inr \<lparr>ts2Val = [(1, 0), (100, 0)], val2Ts = [(0, 100)],
          exit_flag = False, joinable = True, notified = 2, fired = []\<rparr> \<and>
   \<not> bijective \<lparr>ts2Val = [(1::nat, 0::nat), (100, 0)], val2Ts = [(0, 100)],
          exit_flag = False, joinable = True, notified = 2,
          fired = ([] :: (nat, nat) expiry list)\<rparr> \<and>
   distinct (concat (map new_timestamps [UpdateTimestamp (5::nat) (0::nat)])) \<and>
   distinct (concat (map new_values [UpdateTimestamp (5::nat) (0::nat)])) \<and>
   run_steps [Call (UpdateTimestamp 5 0), Wake 5] (construct (100::nat) (0::nat)) = Inl DerefEnd"
  by (simp add: construct_def addEvent_def notify_one_def bijective_def updateTimestamp_def
      wake_def drain.simps fire_front_def onTimestampExpire_def)

end
